theory Spec2Isabelle
  imports Complex_Main
begin

section \<open>The C++ type \<open>float\<close>\<close>

text \<open>
  Every number of the calculator has the C++ type \<open>float\<close> (\<open>Token::literal_value\<close>,
  \<open>LiteralExpression::value\<close>, the result of \<open>Expression::Evaluate\<close>). It is modelled as
  IEEE 754 binary32 in round-to-nearest, ties-to-even: a value is a finite rational
  (\<open>Finite 0\<close> is the positive zero), the negative zero, an infinity or a NaN (one NaN:
  payloads and the sign of a NaN are not told apart). The rounding function takes the
  format as a parameter, the precision \<open>p\<close> in bits and the largest exponent \<open>emax\<close>:
  binary32 is \<open>p = 24\<close>, \<open>emax = 127\<close>; binary64 is \<open>p = 53\<close>, \<open>emax = 1023\<close>.
\<close>

datatype float = Finite rat | NegZero | PosInf | NegInf | NaN

text \<open>The number of bits of a positive integer: \<open>2 ^ (bitlen n - 1) \<le> n < 2 ^ bitlen n\<close>.\<close>

fun bitlen :: "int \<Rightarrow> nat" where
  "bitlen n = (if n \<le> 0 then 0 else Suc (bitlen (n div 2)))"

declare bitlen.simps [simp del]

definition round_half_even :: "rat \<Rightarrow> int" where
  "round_half_even x =
     (let f = \<lfloor>x\<rfloor>; d = x - of_int f
      in if d < 1 / 2 then f else if 1 / 2 < d then f + 1 else if even f then f else f + 1)"

text \<open>
  Rounding a positive magnitude \<open>a\<close>: \<open>u\<close> is the smallest positive (subnormal) number of
  the format, \<open>x\<close> is \<open>a\<close> in units of \<open>u\<close>. Below \<open>2 ^ p\<close> units (the subnormal numbers and
  the first binade of normal ones) the spacing is one unit; above, \<open>k\<close> is chosen so that
  \<open>x / 2 ^ k\<close> has exactly \<open>p\<close> bits before the point, and the spacing is \<open>2 ^ k\<close> units.
\<close>

definition round_magnitude :: "nat \<Rightarrow> nat \<Rightarrow> rat \<Rightarrow> rat" where
  "round_magnitude p emax a =
     (let u = 1 / 2 ^ (emax + p - 2);
          x = a / u;
          k = (if x < 2 ^ p then 0 else bitlen \<lfloor>x\<rfloor> - p);
          m = round_half_even (x / 2 ^ k)
      in of_int m * 2 ^ k * u)"

definition round_to_format :: "nat \<Rightarrow> nat \<Rightarrow> rat \<Rightarrow> float" where
  "round_to_format p emax q =
     (if q = 0 then Finite 0
      else let r = round_magnitude p emax \<bar>q\<bar>
           in if 2 ^ (emax + 1) \<le> r then (if 0 < q then PosInf else NegInf)
              else if r = 0 then (if 0 < q then Finite 0 else NegZero)
              else Finite (if 0 < q then r else - r))"

definition round_float :: "rat \<Rightarrow> float" where
  "round_float q = round_to_format 24 127 q"

fun is_finite :: "float \<Rightarrow> bool" where
  "is_finite (Finite q) = True"
| "is_finite NegZero = True"
| "is_finite f = False"

fun is_zero :: "float \<Rightarrow> bool" where
  "is_zero (Finite q) = (q = 0)"
| "is_zero NegZero = True"
| "is_zero f = False"

fun is_infinite :: "float \<Rightarrow> bool" where
  "is_infinite PosInf = True"
| "is_infinite NegInf = True"
| "is_infinite f = False"

fun sign_bit :: "float \<Rightarrow> bool" where
  "sign_bit (Finite q) = (q < 0)"
| "sign_bit NegZero = True"
| "sign_bit NegInf = True"
| "sign_bit f = False"

fun valof :: "float \<Rightarrow> rat" where
  "valof (Finite q) = q"
| "valof f = 0"

definition signed_zero :: "bool \<Rightarrow> float" where
  "signed_zero s = (if s then NegZero else Finite 0)"

definition signed_infinity :: "bool \<Rightarrow> float" where
  "signed_infinity s = (if s then NegInf else PosInf)"

fun float_neg :: "float \<Rightarrow> float" where
  "float_neg (Finite q) = (if q = 0 then NegZero else Finite (- q))"
| "float_neg NegZero = Finite 0"
| "float_neg PosInf = NegInf"
| "float_neg NegInf = PosInf"
| "float_neg NaN = NaN"

text \<open>The operators \<open>+\<close>, \<open>-\<close>, \<open>*\<close> and \<open>/\<close> on two \<open>float\<close> operands.\<close>

definition float_add :: "float \<Rightarrow> float \<Rightarrow> float" where
  "float_add x y =
     (if x = NaN \<or> y = NaN then NaN
      else if is_infinite x then (if is_infinite y \<and> y \<noteq> x then NaN else x)
      else if is_infinite y then y
      else let s = valof x + valof y
           in if s = 0 then (if x = NegZero \<and> y = NegZero then NegZero else Finite 0)
              else round_float s)"

definition float_sub :: "float \<Rightarrow> float \<Rightarrow> float" where
  "float_sub x y = float_add x (float_neg y)"

definition float_mul :: "float \<Rightarrow> float \<Rightarrow> float" where
  "float_mul x y =
     (let s = (sign_bit x \<noteq> sign_bit y)
      in if x = NaN \<or> y = NaN then NaN
         else if is_infinite x \<or> is_infinite y
           then (if is_zero x \<or> is_zero y then NaN else signed_infinity s)
         else if is_zero x \<or> is_zero y then signed_zero s
         else round_float (valof x * valof y))"

definition float_div :: "float \<Rightarrow> float \<Rightarrow> float" where
  "float_div x y =
     (let s = (sign_bit x \<noteq> sign_bit y)
      in if x = NaN \<or> y = NaN then NaN
         else if is_infinite x then (if is_infinite y then NaN else signed_infinity s)
         else if is_infinite y then signed_zero s
         else if is_zero y then (if is_zero x then NaN else signed_infinity s)
         else if is_zero x then signed_zero s
         else round_float (valof x / valof y))"

text \<open>
  The numbers of a format, as a test that runs: a nonzero finite value is a whole number
  of units \<open>u\<close>, below \<open>2 ^ (emax + 1)\<close>, with no more than \<open>p\<close> significant bits.
\<close>

definition in_format :: "nat \<Rightarrow> nat \<Rightarrow> float \<Rightarrow> bool" where
  "in_format p emax f =
     (case f of
        Finite q \<Rightarrow>
          (let x = \<bar>q\<bar> * 2 ^ (emax + p - 2); n = \<lfloor>x\<rfloor>
           in of_int n = x \<and> \<bar>q\<bar> < 2 ^ (emax + 1) \<and> n mod 2 ^ (bitlen n - p) = 0)
      | _ \<Rightarrow> True)"

definition is_binary32 :: "float \<Rightarrow> bool" where
  "is_binary32 f = in_format 24 127 f"

section \<open>Errors and tokens\<close>

datatype Error_Type = NO_ERROR | INVALID_CHAR | INVALID_TOKEN | END_OF_STREAM

text \<open>
  \<open>class Error\<close>: the kind and the location. The third member, a view of the source line,
  is only read by the printing operator and is left out.
\<close>

datatype Error = Error (error_type: Error_Type) (location: nat)

text \<open>\<open>Error::operator bool\<close>.\<close>

definition is_error :: "Error \<Rightarrow> bool" where
  "is_error e = (error_type e \<noteq> NO_ERROR)"

datatype Type = ADD | SUB | MUL | DIV | LITERAL | RIGHT_PAREN | LEFT_PAREN

text \<open>
  \<open>class Token\<close> has two constructors: \<open>Token(Type)\<close> sets \<open>token_type\<close> and leaves
  \<open>literal_value\<close> uninitialised; \<open>Token(float)\<close> sets \<open>token_type\<close> to \<open>LITERAL\<close> and
  \<open>literal_value\<close> to the value.
\<close>

datatype Token = Token_type Type | Token_value float

fun token_type :: "Token \<Rightarrow> Type" where
  "token_type (Token_type t) = t"
| "token_type (Token_value v) = LITERAL"

fun literal_value :: "Token \<Rightarrow> float option" where
  "literal_value (Token_type t) = None"
| "literal_value (Token_value v) = Some v"

section \<open>The lexer\<close>

text \<open>
  \<open>source[position]\<close> on a \<open>const std::string\<close>: the character, and the null character
  at \<open>position == source.length()\<close>. The lexer never reads further (lemma
  \<open>literal_loop_le\<close> below).
\<close>

definition source_at :: "string \<Rightarrow> nat \<Rightarrow> char" where
  "source_at source position = (if position < length source then source ! position else CHR 0x00)"

definition IsDigit :: "char \<Rightarrow> bool" where
  "IsDigit ch = ((48::nat) \<le> of_char ch \<and> of_char ch \<le> (57::nat))"

text \<open>
  \<open>std::isspace\<close> in the "C" locale (the program never sets another): space, horizontal
  tab, line feed, vertical tab, form feed, carriage return.
\<close>

definition IsWhiteSpace :: "char \<Rightarrow> bool" where
  "IsWhiteSpace ch = (ch \<in> {CHR '' '', CHR 0x09, CHR 0x0A, CHR 0x0B, CHR 0x0C, CHR 0x0D})"

text \<open>
  \<open>std::stof\<close> on the strings \<open>GetLiteral\<close> passes to it, decimal digits with at most one
  point: the decimal value, correctly rounded to \<open>float\<close>. It throws
  \<open>std::invalid_argument\<close> when the string starts with no number, and \<open>std::out_of_range\<close>
  when \<open>strtof\<close> reports \<open>ERANGE\<close>: always when the value rounds to infinity; for a nonzero
  value below the normal range (less than \<open>2 ^ -126\<close>) the C standard leaves to the
  implementation whether \<open>ERANGE\<close> is reported, so the model takes that choice as the
  parameter \<open>erange\<close>, a predicate on the exact value.
\<close>

datatype exception = invalid_argument | out_of_range

definition digit_value :: "char \<Rightarrow> int" where
  "digit_value ch = of_char ch - 48"

definition decimal_digits :: "string \<Rightarrow> int" where
  "decimal_digits ds = foldl (\<lambda>n ch. 10 * n + digit_value ch) 0 ds"

definition fraction_digits :: "string \<Rightarrow> string" where
  "fraction_digits s = (case s of [] \<Rightarrow> [] | ch # r \<Rightarrow> if ch = CHR ''.'' then takeWhile IsDigit r else [])"

definition decimal_value :: "string \<Rightarrow> rat" where
  "decimal_value s =
     (let fs = fraction_digits (dropWhile IsDigit s)
      in of_int (decimal_digits (takeWhile IsDigit s)) + of_int (decimal_digits fs) / 10 ^ length fs)"

definition stof :: "(rat \<Rightarrow> bool) \<Rightarrow> string \<Rightarrow> exception + float" where
  "stof erange s =
     (if takeWhile IsDigit s = [] then Inl invalid_argument
      else let q = decimal_value s
           in if round_float q = PosInf then Inl out_of_range
              else if q \<noteq> 0 \<and> q < 1 / 2 ^ 126 \<and> erange q then Inl out_of_range
              else Inr (round_float q))"

text \<open>The \<open>while\<close> loop of \<open>GetLiteral\<close>; the result is the final \<open>position\<close>.\<close>

function literal_loop :: "string \<Rightarrow> nat \<Rightarrow> bool \<Rightarrow> nat" where
  "literal_loop source position has_decimal_point =
     (if IsDigit (source_at source position)
         \<or> (\<not> has_decimal_point \<and> source_at source position = CHR ''.'')
      then literal_loop source (position + 1)
             (if source_at source position = CHR ''.'' then True else has_decimal_point)
      else position)"
  by pat_completeness auto

lemma IsDigit_NUL: "\<not> IsDigit (CHR 0x00)"
  by (simp add: IsDigit_def)

lemma IsDigit_in_source: "IsDigit (source_at source position) \<Longrightarrow> position < length source"
  by (auto simp: source_at_def IsDigit_NUL split: if_splits)

lemma point_in_source: "source_at source position = CHR ''.'' \<Longrightarrow> position < length source"
  by (auto simp: source_at_def split: if_splits)

termination literal_loop
proof (relation "measure (\<lambda>(source, position, h). length source - position)")
  show "wf (measure (\<lambda>(source, position, h). length source - position))"
    by simp
next
  fix source :: string and position :: nat and has_decimal_point :: bool
  assume "IsDigit (source_at source position)
      \<or> (\<not> has_decimal_point \<and> source_at source position = CHR ''.'')"
  then have "position < length source"
    using IsDigit_in_source point_in_source by blast
  then show "((source, position + 1,
        if source_at source position = CHR ''.'' then True else has_decimal_point),
       source, position, has_decimal_point)
      \<in> measure (\<lambda>(source, position, h). length source - position)"
    by simp
qed

declare literal_loop.simps [simp del]

text \<open>
  \<open>GetLiteral\<close>: the pair it returns and the final \<open>position\<close>, or the exception of
  \<open>std::stof\<close>.
\<close>

definition GetLiteral :: "(rat \<Rightarrow> bool) \<Rightarrow> string \<Rightarrow> nat \<Rightarrow> exception + ((float \<times> bool) \<times> nat)" where
  "GetLiteral erange source position =
     (if \<not> IsDigit (source_at source position) then Inr ((Finite 0, False), position)
      else let start = position;
               position' = literal_loop source position False
           in case stof erange (take (position' - start) (drop start source)) of
                Inl ex \<Rightarrow> Inl ex
              | Inr v \<Rightarrow> Inr ((v, True), position'))"

lemma literal_loop_ge: "position \<le> literal_loop source position h"
proof (induction source position h rule: literal_loop.induct)
  case (1 source position h)
  then show ?case
    by (subst literal_loop.simps) (auto split: if_splits)
qed

lemma literal_loop_digit: "IsDigit (source_at source position) \<Longrightarrow> position < literal_loop source position h"
  using literal_loop_ge [of "position + 1" source]
  by (subst literal_loop.simps) (simp add: Suc_le_lessD)

lemma GetLiteral_advances:
  "GetLiteral erange source position = Inr ((v, True), position') \<Longrightarrow> position < position'"
  by (auto simp: GetLiteral_def Let_def literal_loop_digit split: if_splits sum.splits)

text \<open>
  The loop of \<open>Lexer::Scan\<close> on the members \<open>position\<close>, \<open>tokens\<close> and \<open>token_positions\<close>.
  The result is the \<open>Error\<close> returned with the final \<open>tokens\<close> and \<open>token_positions\<close>, or
  the exception of \<open>std::stof\<close>, which nothing catches.
\<close>

function Scan_loop :: "(rat \<Rightarrow> bool) \<Rightarrow> string \<Rightarrow> nat \<Rightarrow> Token list \<Rightarrow> nat list
    \<Rightarrow> exception + (Error \<times> Token list \<times> nat list)" where
  "Scan_loop erange source position tokens token_positions =
     (if position < length source then
        (if IsWhiteSpace (source_at source position) then
           Scan_loop erange source (position + 1) tokens token_positions
         else if source_at source position = CHR ''+'' then
           Scan_loop erange source (position + 1) (tokens @ [Token_type ADD]) (token_positions @ [position])
         else if source_at source position = CHR ''-'' then
           Scan_loop erange source (position + 1) (tokens @ [Token_type SUB]) (token_positions @ [position])
         else if source_at source position = CHR ''*'' then
           Scan_loop erange source (position + 1) (tokens @ [Token_type MUL]) (token_positions @ [position])
         else if source_at source position = CHR ''/'' then
           Scan_loop erange source (position + 1) (tokens @ [Token_type DIV]) (token_positions @ [position])
         else if source_at source position = CHR ''('' then
           Scan_loop erange source (position + 1) (tokens @ [Token_type LEFT_PAREN]) (token_positions @ [position])
         else if source_at source position = CHR '')'' then
           Scan_loop erange source (position + 1) (tokens @ [Token_type RIGHT_PAREN]) (token_positions @ [position])
         else
           (case GetLiteral erange source position of
              Inl ex \<Rightarrow> Inl ex
            | Inr ((v, success), position') \<Rightarrow>
                if \<not> success then Inr (Error INVALID_CHAR position', tokens, token_positions @ [position])
                else Scan_loop erange source position' (tokens @ [Token_value v]) (token_positions @ [position])))
      else Inr (Error NO_ERROR 0, tokens, token_positions))"
  by pat_completeness auto

termination Scan_loop
  by (relation "measure (\<lambda>(erange, source, position, tokens, token_positions). length source - position)")
     (auto dest: GetLiteral_advances)

declare Scan_loop.simps [simp del]

text \<open>\<open>Lexer::Scan\<close> on a new \<open>Lexer\<close>: \<open>position\<close> is 0 and both vectors are empty.\<close>

definition Scan :: "(rat \<Rightarrow> bool) \<Rightarrow> string \<Rightarrow> exception + (Error \<times> Token list \<times> nat list)" where
  "Scan erange source = Scan_loop erange source 0 [] []"

section \<open>Expressions and their evaluation\<close>

text \<open>
  The classes derived from \<open>Expression\<close>, one constructor each, and the virtual method
  \<open>Evaluate\<close>.
\<close>

datatype Expression =
    LiteralExpression float
  | AddExpression Expression Expression
  | SubtractExpression Expression Expression
  | MultiplyExpression Expression Expression
  | DivideExpression Expression Expression

fun Evaluate :: "Expression \<Rightarrow> float" where
  "Evaluate (LiteralExpression v) = v"
| "Evaluate (AddExpression lhs rhs) = float_add (Evaluate lhs) (Evaluate rhs)"
| "Evaluate (SubtractExpression lhs rhs) = float_sub (Evaluate lhs) (Evaluate rhs)"
| "Evaluate (MultiplyExpression lhs rhs) = float_mul (Evaluate lhs) (Evaluate rhs)"
| "Evaluate (DivideExpression lhs rhs) = float_div (Evaluate lhs) (Evaluate rhs)"

section \<open>The parser\<close>

text \<open>
  What C++ leaves undefined is a result of its own in the model: reading a vector at an
  index that is not below its size, reading the \<open>literal_value\<close> that \<open>Token(Type)\<close> left
  uninitialised, and dereferencing the empty \<open>expr\<close> pointer.
\<close>

datatype undefined_behaviour = OutOfBoundsRead nat | UninitialisedRead nat | NullDereference

definition index_read :: "'a list \<Rightarrow> nat \<Rightarrow> undefined_behaviour + 'a" where
  "index_read xs i = (if i < length xs then Inr (xs ! i) else Inl (OutOfBoundsRead i))"

text \<open>
  The outcome of a parsing method with the member \<open>position\<close> as it leaves it: a normal
  return, the exception of \<open>throw 1\<close>, or undefined behaviour.
\<close>

datatype 'a outcome = Return 'a nat | Throw nat | Undefined undefined_behaviour

definition IsAtEnd :: "Token list \<Rightarrow> nat \<Rightarrow> bool" where
  "IsAtEnd tokens position = (position = length tokens)"

definition Check :: "Token list \<Rightarrow> nat \<Rightarrow> Type \<Rightarrow> undefined_behaviour + bool" where
  "Check tokens position type =
     (if IsAtEnd tokens position then Inr False
      else case index_read tokens position of
             Inl ub \<Rightarrow> Inl ub
           | Inr token \<Rightarrow> Inr (token_type token = type))"

fun Match :: "Token list \<Rightarrow> nat \<Rightarrow> Type list \<Rightarrow> undefined_behaviour + bool" where
  "Match tokens position [] = Inr False"
| "Match tokens position [first] = Check tokens position first"
| "Match tokens position (first # args) =
     (case Check tokens position first of
        Inl ub \<Rightarrow> Inl ub
      | Inr True \<Rightarrow> Inr True
      | Inr False \<Rightarrow> Match tokens position args)"

definition Consume :: "Token list \<Rightarrow> nat \<Rightarrow> Type \<Rightarrow> unit outcome" where
  "Consume tokens position type =
     (case index_read tokens position of
        Inl ub \<Rightarrow> Undefined ub
      | Inr token \<Rightarrow> if token_type token \<noteq> type then Throw position else Return () (position + 1))"

text \<open>
  \<open>Term\<close>, \<open>Factor\<close> and \<open>Primary\<close>; \<open>Term_loop\<close> and \<open>Factor_loop\<close> are the \<open>while\<close> loops of
  \<open>Term\<close> and \<open>Factor\<close>, with the local \<open>expr\<close> as an argument.
\<close>

function Term :: "Token list \<Rightarrow> nat \<Rightarrow> Expression outcome"
  and Term_loop :: "Token list \<Rightarrow> Expression \<Rightarrow> nat \<Rightarrow> Expression outcome"
  and Factor :: "Token list \<Rightarrow> nat \<Rightarrow> Expression outcome"
  and Factor_loop :: "Token list \<Rightarrow> Expression \<Rightarrow> nat \<Rightarrow> Expression outcome"
  and Primary :: "Token list \<Rightarrow> nat \<Rightarrow> Expression outcome"
where
  "Term tokens position =
     (case Factor tokens position of
        Return expr position' \<Rightarrow> Term_loop tokens expr position'
      | Throw position' \<Rightarrow> Throw position'
      | Undefined ub \<Rightarrow> Undefined ub)"
| "Term_loop tokens expr position =
     (case Match tokens position [ADD, SUB] of
        Inl ub \<Rightarrow> Undefined ub
      | Inr False \<Rightarrow> Return expr position
      | Inr True \<Rightarrow>
          (case index_read tokens position of
             Inl ub \<Rightarrow> Undefined ub
           | Inr token \<Rightarrow>
               (case Factor tokens (position + 1) of
                  Return rhs position' \<Rightarrow>
                    Term_loop tokens
                      (if token_type token = ADD then AddExpression expr rhs
                       else SubtractExpression expr rhs) position'
                | Throw position' \<Rightarrow> Throw position'
                | Undefined ub \<Rightarrow> Undefined ub)))"
| "Factor tokens position =
     (case Primary tokens position of
        Return expr position' \<Rightarrow> Factor_loop tokens expr position'
      | Throw position' \<Rightarrow> Throw position'
      | Undefined ub \<Rightarrow> Undefined ub)"
| "Factor_loop tokens expr position =
     (case Match tokens position [MUL, DIV] of
        Inl ub \<Rightarrow> Undefined ub
      | Inr False \<Rightarrow> Return expr position
      | Inr True \<Rightarrow>
          (case index_read tokens position of
             Inl ub \<Rightarrow> Undefined ub
           | Inr token \<Rightarrow>
               (case Primary tokens (position + 1) of
                  Return rhs position' \<Rightarrow>
                    Factor_loop tokens
                      (if token_type token = MUL then MultiplyExpression expr rhs
                       else DivideExpression expr rhs) position'
                | Throw position' \<Rightarrow> Throw position'
                | Undefined ub \<Rightarrow> Undefined ub)))"
| "Primary tokens position =
     (case Match tokens position [LITERAL] of
        Inl ub \<Rightarrow> Undefined ub
      | Inr True \<Rightarrow>
          (case index_read tokens position of
             Inl ub \<Rightarrow> Undefined ub
           | Inr token \<Rightarrow>
               (case literal_value token of
                  None \<Rightarrow> Undefined (UninitialisedRead position)
                | Some v \<Rightarrow> Return (LiteralExpression v) (position + 1)))
      | Inr False \<Rightarrow>
          (case Match tokens position [LEFT_PAREN] of
             Inl ub \<Rightarrow> Undefined ub
           | Inr True \<Rightarrow>
               (case Term tokens (position + 1) of
                  Return expr position' \<Rightarrow>
                    (case Consume tokens position' RIGHT_PAREN of
                       Return u position'' \<Rightarrow> Return expr position''
                     | Throw position'' \<Rightarrow> Throw position''
                     | Undefined ub \<Rightarrow> Undefined ub)
                | Throw position' \<Rightarrow> Throw position'
                | Undefined ub \<Rightarrow> Undefined ub)
           | Inr False \<Rightarrow> Throw position))"
  by pat_completeness auto



lemma Check_in_bounds: "Check tokens position t = Inr True \<Longrightarrow> position < length tokens"
  by (simp add: Check_def IsAtEnd_def index_read_def split: if_splits)

lemma Consume_advances: "Consume tokens position type = Return u position' \<Longrightarrow> position \<le> position'"
  by (simp add: Consume_def index_read_def split: if_splits)

lemma Match_in_bounds: "Match tokens position types = Inr True \<Longrightarrow> position < length tokens"
proof (induction tokens position types rule: Match.induct)
  case (1 tokens position)
  then show ?case by simp
next
  case (2 tokens position first)
  then show ?case by (simp add: Check_in_bounds)
next
  case (3 tokens position first v va)
  show ?case
  proof (cases "Check tokens position first")
    case (Inl a)
    with 3 show ?thesis by simp
  next
    case (Inr b)
    with 3 show ?thesis by (cases b) (simp_all add: Check_in_bounds)
  qed
qed

lemma parser_progress:
  shows "Term_Term_loop_Factor_Factor_loop_Primary_dom (Inl (Inl (tokens, position)))
      \<Longrightarrow> \<forall>e p'. Term tokens position = Return e p' \<longrightarrow> position \<le> p'"
    and "Term_Term_loop_Factor_Factor_loop_Primary_dom (Inl (Inr (tokens, expr, position)))
      \<Longrightarrow> \<forall>e p'. Term_loop tokens expr position = Return e p' \<longrightarrow> position \<le> p'"
    and "Term_Term_loop_Factor_Factor_loop_Primary_dom (Inr (Inl (tokens, position)))
      \<Longrightarrow> \<forall>e p'. Factor tokens position = Return e p' \<longrightarrow> position \<le> p'"
    and "Term_Term_loop_Factor_Factor_loop_Primary_dom (Inr (Inr (Inl (tokens, expr, position))))
      \<Longrightarrow> \<forall>e p'. Factor_loop tokens expr position = Return e p' \<longrightarrow> position \<le> p'"
    and "Term_Term_loop_Factor_Factor_loop_Primary_dom (Inr (Inr (Inr (tokens, position))))
      \<Longrightarrow> \<forall>e p'. Primary tokens position = Return e p' \<longrightarrow> position \<le> p'"
proof (induct rule: Term_Term_loop_Factor_Factor_loop_Primary.pinduct)
  case (1 tokens position)
  show ?case
  proof (intro allI impI)
    fix e p'
    assume r: "Term tokens position = Return e p'"
    show "position \<le> p'"
    proof (cases "Factor tokens position")
      case (Return x q)
      with r have "Term_loop tokens x q = Return e p'"
        by (simp add: Term.psimps [OF "1.hyps"(1)])
      with "1.hyps"(3) [OF Return] have "q \<le> p'" by blast
      moreover from "1.hyps"(2) Return have "position \<le> q" by blast
      ultimately show ?thesis by simp
    next
      case (Throw q)
      with r show ?thesis by (simp add: Term.psimps [OF "1.hyps"(1)])
    next
      case (Undefined ub)
      with r show ?thesis by (simp add: Term.psimps [OF "1.hyps"(1)])
    qed
  qed
next
  case (2 tokens expr position)
  show ?case
  proof (intro allI impI)
    fix e p'
    assume r: "Term_loop tokens expr position = Return e p'"
    note eq = r [unfolded Term_loop.psimps [OF "2.hyps"(1)]]
    show "position \<le> p'"
    proof (cases "Match tokens position [ADD, SUB]")
      case (Inl ub)
      with eq show ?thesis by simp
    next
      case (Inr b)
      show ?thesis
      proof (cases b)
        case False
        with eq Inr show ?thesis by simp
      next
        case True
        with Inr have m: "Match tokens position [ADD, SUB] = Inr True" by simp
        show ?thesis
        proof (cases "index_read tokens position")
          case (Inl ub)
          with eq Inr True show ?thesis by simp
        next
          case tok: (Inr token)
          show ?thesis
          proof (cases "Factor tokens (position + 1)")
            case (Return rhs q)
            from "2.hyps"(2) [OF m refl tok] Return have "position + 1 \<le> q" by blast
            moreover from eq Inr True tok Return
            have "Term_loop tokens (if token_type token = ADD then AddExpression expr rhs
                       else SubtractExpression expr rhs) q = Return e p'" by simp
            with "2.hyps"(3) [OF m refl tok Return] have "q \<le> p'" by blast
            ultimately show ?thesis by simp
          next
            case (Throw q)
            with eq Inr True tok show ?thesis by simp
          next
            case (Undefined ub)
            with eq Inr True tok show ?thesis by simp
          qed
        qed
      qed
    qed
  qed
next
  case (3 tokens position)
  show ?case
  proof (intro allI impI)
    fix e p'
    assume r: "Factor tokens position = Return e p'"
    show "position \<le> p'"
    proof (cases "Primary tokens position")
      case (Return x q)
      with r have "Factor_loop tokens x q = Return e p'"
        by (simp add: Factor.psimps [OF "3.hyps"(1)])
      with "3.hyps"(3) [OF Return] have "q \<le> p'" by blast
      moreover from "3.hyps"(2) Return have "position \<le> q" by blast
      ultimately show ?thesis by simp
    next
      case (Throw q)
      with r show ?thesis by (simp add: Factor.psimps [OF "3.hyps"(1)])
    next
      case (Undefined ub)
      with r show ?thesis by (simp add: Factor.psimps [OF "3.hyps"(1)])
    qed
  qed
next
  case (4 tokens expr position)
  show ?case
  proof (intro allI impI)
    fix e p'
    assume r: "Factor_loop tokens expr position = Return e p'"
    note eq = r [unfolded Factor_loop.psimps [OF "4.hyps"(1)]]
    show "position \<le> p'"
    proof (cases "Match tokens position [MUL, DIV]")
      case (Inl ub)
      with eq show ?thesis by simp
    next
      case (Inr b)
      show ?thesis
      proof (cases b)
        case False
        with eq Inr show ?thesis by simp
      next
        case True
        with Inr have m: "Match tokens position [MUL, DIV] = Inr True" by simp
        show ?thesis
        proof (cases "index_read tokens position")
          case (Inl ub)
          with eq Inr True show ?thesis by simp
        next
          case tok: (Inr token)
          show ?thesis
          proof (cases "Primary tokens (position + 1)")
            case (Return rhs q)
            from "4.hyps"(2) [OF m refl tok] Return have "position + 1 \<le> q" by blast
            moreover from eq Inr True tok Return
            have "Factor_loop tokens (if token_type token = MUL then MultiplyExpression expr rhs
                       else DivideExpression expr rhs) q = Return e p'" by simp
            with "4.hyps"(3) [OF m refl tok Return] have "q \<le> p'" by blast
            ultimately show ?thesis by simp
          next
            case (Throw q)
            with eq Inr True tok show ?thesis by simp
          next
            case (Undefined ub)
            with eq Inr True tok show ?thesis by simp
          qed
        qed
      qed
    qed
  qed
next
  case (5 tokens position)
  show ?case
  proof (intro allI impI)
    fix e p'
    assume r: "Primary tokens position = Return e p'"
    note eq = r [unfolded Primary.psimps [OF "5.hyps"(1)]]
    show "position \<le> p'"
    proof (cases "Match tokens position [LITERAL]")
      case (Inl ub)
      with eq show ?thesis by simp
    next
      case lit: (Inr b)
      show ?thesis
      proof (cases b)
        case True
        with eq lit show ?thesis
          by (auto split: sum.splits option.splits)
      next
        case False
        show ?thesis
        proof (cases "Match tokens position [LEFT_PAREN]")
          case (Inl ub)
          with eq lit False show ?thesis by simp
        next
          case par: (Inr b')
          show ?thesis
          proof (cases b')
            case nopar: False
            with eq lit False par show ?thesis by simp
          next
            case True
            with par have p: "Match tokens position [LEFT_PAREN] = Inr True" by simp
            from lit False have l: "Match tokens position [LITERAL] = Inr False" by simp
            show ?thesis
            proof (cases "Term tokens (position + 1)")
              case (Return x q)
              from "5.hyps"(2) [OF l refl p refl] Return have "position + 1 \<le> q" by blast
              moreover from eq lit False par True Return
              have "\<exists>u. Consume tokens q RIGHT_PAREN = Return u p'"
                by (auto split: outcome.splits)
              then have "q \<le> p'" using Consume_advances by blast
              ultimately show ?thesis by simp
            next
              case (Throw q)
              with eq lit False par True show ?thesis by simp
            next
              case (Undefined ub)
              with eq lit False par True show ?thesis by simp
            qed
          qed
        qed
      qed
    qed
  qed
qed



lemma index_read_in_bounds: "index_read xs i = Inr x \<Longrightarrow> i < length xs"
  by (simp add: index_read_def split: if_splits)

lemma Factor_progress:
  "Term_Term_loop_Factor_Factor_loop_Primary_dom (Inr (Inl (tokens, position)))
   \<Longrightarrow> Factor tokens position = Return e p' \<Longrightarrow> position \<le> p'"
  using parser_progress(3) by blast

lemma Primary_progress:
  "Term_Term_loop_Factor_Factor_loop_Primary_dom (Inr (Inr (Inr (tokens, position))))
   \<Longrightarrow> Primary tokens position = Return e p' \<Longrightarrow> position \<le> p'"
  using parser_progress(5) by blast

termination Term
proof (relation "measures
    [\<lambda>x. case x of
        Inl (Inl (tokens, position)) \<Rightarrow> length tokens - position
      | Inl (Inr (tokens, expr, position)) \<Rightarrow> length tokens - position
      | Inr (Inl (tokens, position)) \<Rightarrow> length tokens - position
      | Inr (Inr (Inl (tokens, expr, position))) \<Rightarrow> length tokens - position
      | Inr (Inr (Inr (tokens, position))) \<Rightarrow> length tokens - position,
     \<lambda>x. case x of
        Inl (Inl a) \<Rightarrow> 3
      | Inl (Inr a) \<Rightarrow> 0
      | Inr (Inl a) \<Rightarrow> 2
      | Inr (Inr (Inl a)) \<Rightarrow> 0
      | Inr (Inr (Inr a)) \<Rightarrow> 1]", goal_cases)
  case 1
  show ?case by simp
next
  case (2 tokens position)
  show ?case by simp
next
  case (3 tokens position x11 x12)
  then have "position \<le> x12" by (simp add: Factor_progress)
  then show ?case by (simp; arith)
next
  case (4 tokens expr position b ba)
  from 4(3) have "position < length tokens" by (rule index_read_in_bounds)
  then show ?case by simp
next
  case (5 tokens expr position b ba x11 x12)
  from 5(3) have "position < length tokens" by (rule index_read_in_bounds)
  moreover from 5(4,5) have "position + 1 \<le> x12" by (simp add: Factor_progress)
  ultimately show ?case by simp
next
  case (6 tokens position)
  show ?case by simp
next
  case (7 tokens position x11 x12)
  then have "position \<le> x12" by (simp add: Primary_progress)
  then show ?case by (simp; arith)
next
  case (8 tokens expr position b ba)
  from 8(3) have "position < length tokens" by (rule index_read_in_bounds)
  then show ?case by simp
next
  case (9 tokens expr position b ba x11 x12)
  from 9(3) have "position < length tokens" by (rule index_read_in_bounds)
  moreover from 9(4,5) have "position + 1 \<le> x12" by (simp add: Primary_progress)
  ultimately show ?case by simp
next
  case (10 tokens position b ba)
  from 10(3,4) have "Match tokens position [LEFT_PAREN] = Inr True" by simp
  then have "position < length tokens" by (rule Match_in_bounds)
  then show ?case by simp
qed

declare Term.simps [simp del] Term_loop.simps [simp del] Factor.simps [simp del]
  Factor_loop.simps [simp del] Primary.simps [simp del]

text \<open>
  \<open>Parser::Parse\<close> on a new \<open>Parser\<close>: the \<open>Error\<close> it returns and the member \<open>expr\<close>, which
  is set as soon as \<open>Term\<close> returns.
\<close>

definition Parse :: "Token list \<Rightarrow> nat list \<Rightarrow> string
    \<Rightarrow> undefined_behaviour + (Error \<times> Expression option)" where
  "Parse tokens token_positions source =
     (case Term tokens 0 of
        Undefined ub \<Rightarrow> Inl ub
      | Throw position \<Rightarrow>
          if IsAtEnd tokens position then Inr (Error END_OF_STREAM (length source), None)
          else (case index_read token_positions position of
                  Inl ub \<Rightarrow> Inl ub
                | Inr l \<Rightarrow> Inr (Error INVALID_TOKEN l, None))
      | Return expr position \<Rightarrow>
          if position \<noteq> length tokens then
            (case index_read token_positions position of
               Inl ub \<Rightarrow> Inl ub
             | Inr l \<Rightarrow> Inr (Error INVALID_TOKEN l, Some expr))
          else Inr (Error NO_ERROR 0, Some expr))"

section \<open>The pipeline\<close>

text \<open>
  \<open>ProcessInput\<close>: what it prints, the error or the value; or the exception that ends the
  process; or undefined behaviour.
\<close>

datatype process_result =
    Print_Error Error
  | Print_Value float
  | Uncaught exception
  | Undefined_Behaviour undefined_behaviour

definition ProcessInput :: "(rat \<Rightarrow> bool) \<Rightarrow> string \<Rightarrow> process_result" where
  "ProcessInput erange input =
     (case Scan erange input of
        Inl ex \<Rightarrow> Uncaught ex
      | Inr (error, tokens, token_positions) \<Rightarrow>
          if is_error error then Print_Error error
          else (case Parse tokens token_positions input of
                  Inl ub \<Rightarrow> Undefined_Behaviour ub
                | Inr (error', ast) \<Rightarrow>
                    if is_error error' then Print_Error error'
                    else (case ast of
                            None \<Rightarrow> Undefined_Behaviour NullDereference
                          | Some expr \<Rightarrow> Print_Value (Evaluate expr))))"

section \<open>The grammar of the specification\<close>

text \<open>
  The grammar as the specification gives it, with the tree each derivation stands for:
  \<open>term := factor (('+' | '-') factor)*\<close>, \<open>factor := primary (('*' | '/') primary)*\<close>,
  \<open>primary := LITERAL | '(' term ')'\<close>, both repetitions left-associative. A repetition read
  left-associatively is the left-recursive rule: a term is a factor, or a term, an operator
  and a factor. \<open>derives_term ts e\<close> says that the tokens \<open>ts\<close> are a term and \<open>e\<close> is its tree.
  These relations are written from the specification, not from the code.
\<close>

inductive derives_primary :: "Token list \<Rightarrow> Expression \<Rightarrow> bool"
  and derives_factor :: "Token list \<Rightarrow> Expression \<Rightarrow> bool"
  and derives_term :: "Token list \<Rightarrow> Expression \<Rightarrow> bool"
where
  literal: "derives_primary [Token_value v] (LiteralExpression v)"
| parens: "derives_term ts e
    \<Longrightarrow> derives_primary (Token_type LEFT_PAREN # ts @ [Token_type RIGHT_PAREN]) e"
| primary: "derives_primary ts e \<Longrightarrow> derives_factor ts e"
| mul: "derives_factor ts1 e1 \<Longrightarrow> derives_primary ts2 e2
    \<Longrightarrow> derives_factor (ts1 @ Token_type MUL # ts2) (MultiplyExpression e1 e2)"
| div: "derives_factor ts1 e1 \<Longrightarrow> derives_primary ts2 e2
    \<Longrightarrow> derives_factor (ts1 @ Token_type DIV # ts2) (DivideExpression e1 e2)"
| factor: "derives_factor ts e \<Longrightarrow> derives_term ts e"
| add: "derives_term ts1 e1 \<Longrightarrow> derives_factor ts2 e2
    \<Longrightarrow> derives_term (ts1 @ Token_type ADD # ts2) (AddExpression e1 e2)"
| sub: "derives_term ts1 e1 \<Longrightarrow> derives_factor ts2 e2
    \<Longrightarrow> derives_term (ts1 @ Token_type SUB # ts2) (SubtractExpression e1 e2)"

text \<open>
  The token sequences that stop where a primary expression has to follow: nothing at all,
  a term and an operator, and, since an open parenthesis stands where a primary may
  stand, such a sequence, an open parenthesis and again such a sequence.
\<close>

definition is_operator :: "Type \<Rightarrow> bool" where
  "is_operator t = (t = ADD \<or> t = SUB \<or> t = MUL \<or> t = DIV)"

inductive expects_primary :: "Token list \<Rightarrow> bool" where
  nothing: "expects_primary []"
| after_operator: "derives_term ts e \<Longrightarrow> is_operator op \<Longrightarrow> expects_primary (ts @ [Token_type op])"
| after_paren: "expects_primary outer \<Longrightarrow> expects_primary inner
    \<Longrightarrow> expects_primary (outer @ Token_type LEFT_PAREN # inner)"

text \<open>
  A chain of operands: a first operand and a list of further ones, each with the operator
  before it, its tokens and its tree. \<open>chain_tokens\<close> is the token sequence, \<open>left_chain\<close>
  the tree that leans to the left, \<open>left_to_right\<close> the value computed operand by operand
  from the left.
\<close>

fun binary :: "Type \<Rightarrow> Expression \<Rightarrow> Expression \<Rightarrow> Expression" where
  "binary ADD lhs rhs = AddExpression lhs rhs"
| "binary SUB lhs rhs = SubtractExpression lhs rhs"
| "binary MUL lhs rhs = MultiplyExpression lhs rhs"
| "binary t lhs rhs = DivideExpression lhs rhs"

fun float_op :: "Type \<Rightarrow> float \<Rightarrow> float \<Rightarrow> float" where
  "float_op ADD x y = float_add x y"
| "float_op SUB x y = float_sub x y"
| "float_op MUL x y = float_mul x y"
| "float_op t x y = float_div x y"

definition chain_tokens :: "Token list \<Rightarrow> (Type \<times> Token list \<times> Expression) list \<Rightarrow> Token list" where
  "chain_tokens first rest = first @ concat (map (\<lambda>(op, ts, e). Token_type op # ts) rest)"

definition left_chain :: "Expression \<Rightarrow> (Type \<times> Token list \<times> Expression) list \<Rightarrow> Expression" where
  "left_chain e0 rest = foldl (\<lambda>lhs (op, ts, e). binary op lhs e) e0 rest"

definition left_to_right :: "float \<Rightarrow> (Type \<times> Token list \<times> Expression) list \<Rightarrow> float" where
  "left_to_right v0 rest = foldl (\<lambda>v (op, ts, e). float_op op v (Evaluate e)) v0 rest"

section \<open>Auxiliary notions\<close>

text \<open>The type of the token at a position, if there is one.\<close>

definition next_type :: "Token list \<Rightarrow> nat \<Rightarrow> Type option" where
  "next_type tokens position =
     (if position < length tokens then Some (token_type (tokens ! position)) else None)"

text \<open>The position an outcome leaves is between the starting position and the number of tokens.\<close>

definition stays_inside :: "Token list \<Rightarrow> nat \<Rightarrow> 'a outcome \<Rightarrow> bool" where
  "stays_inside tokens position r =
     (case r of
        Return e position' \<Rightarrow> position \<le> position' \<and> position' \<le> length tokens
      | Throw position' \<Rightarrow> position \<le> position' \<and> position' \<le> length tokens
      | Undefined ub \<Rightarrow> True)"

text \<open>
  The choice the C standard leaves open for \<open>strtof\<close> on underflow, fixed for the concrete
  examples: \<open>ERANGE\<close> is never reported.
\<close>

definition underflow_unreported :: "rat \<Rightarrow> bool" where
  "underflow_unreported q = False"

text \<open>
  The characters that are a token of their own, and the characters that can start a token:
  those and the decimal digits.
\<close>

definition operator_token :: "char \<Rightarrow> Type option" where
  "operator_token ch =
     (if ch = CHR ''+'' then Some ADD
      else if ch = CHR ''-'' then Some SUB
      else if ch = CHR ''*'' then Some MUL
      else if ch = CHR ''/'' then Some DIV
      else if ch = CHR ''('' then Some LEFT_PAREN
      else if ch = CHR '')'' then Some RIGHT_PAREN
      else None)"

definition starts_token :: "char \<Rightarrow> bool" where
  "starts_token ch = (IsDigit ch \<or> operator_token ch \<noteq> None)"

text \<open>
  The pattern of a literal in the specification, \<open>digit+ ('.' digit*)?\<close>: at least one digit,
  then nothing more, or a point and digits only.
\<close>

definition matches_literal :: "string \<Rightarrow> bool" where
  "matches_literal w =
     (takeWhile IsDigit w \<noteq> []
      \<and> (case dropWhile IsDigit w of [] \<Rightarrow> True | ch # fs \<Rightarrow> ch = CHR ''.'' \<and> list_all IsDigit fs))"

text \<open>
  The length of the literal at the start of a list of characters: the digits, and when a
  point follows them, the point and the digits after it.
\<close>

definition munch :: "string \<Rightarrow> nat" where
  "munch t =
     (case dropWhile IsDigit t of
        [] \<Rightarrow> length (takeWhile IsDigit t)
      | ch # r \<Rightarrow>
          if ch = CHR ''.'' then length (takeWhile IsDigit t) + 1 + length (takeWhile IsDigit r)
          else length (takeWhile IsDigit t))"

text \<open>
  A character that cannot continue a literal of the text before it: not a digit, and a point
  only when the text before it is empty or ends with neither a digit nor a point.
\<close>

definition may_follow :: "string \<Rightarrow> char \<Rightarrow> bool" where
  "may_follow pre c =
     (\<not> IsDigit c
      \<and> (c = CHR ''.'' \<longrightarrow> pre = [] \<or> (\<not> IsDigit (last pre) \<and> last pre \<noteq> CHR ''.'')))"

text \<open>
  A token with a value that is finite and not negative; a token without a value is not of
  type \<open>LITERAL\<close>.
\<close>

definition nonnegative_literal :: "Token \<Rightarrow> bool" where
  "nonnegative_literal t =
     (case t of
        Token_value (Finite q) \<Rightarrow> 0 \<le> q
      | Token_value v \<Rightarrow> False
      | Token_type ty \<Rightarrow> ty \<noteq> LITERAL)"

text \<open>
  The values at the leaves of a tree, the values of the tokens, and the outcomes whose tree
  has no other leaves than the values of the tokens and those of a set \<open>extra\<close>.
\<close>

fun literals :: "Expression \<Rightarrow> float set" where
  "literals (LiteralExpression v) = {v}"
| "literals (AddExpression lhs rhs) = literals lhs \<union> literals rhs"
| "literals (SubtractExpression lhs rhs) = literals lhs \<union> literals rhs"
| "literals (MultiplyExpression lhs rhs) = literals lhs \<union> literals rhs"
| "literals (DivideExpression lhs rhs) = literals lhs \<union> literals rhs"

definition token_values :: "Token list \<Rightarrow> float set" where
  "token_values tokens = {v. Token_value v \<in> set tokens}"

definition only_token_values :: "Token list \<Rightarrow> float set \<Rightarrow> Expression outcome \<Rightarrow> bool" where
  "only_token_values tokens extra r =
     (case r of
        Return e position \<Rightarrow> literals e \<subseteq> extra \<union> token_values tokens
      | Throw position \<Rightarrow> True
      | Undefined ub \<Rightarrow> True)"

definition binary32_token :: "Token \<Rightarrow> bool" where
  "binary32_token t = (case t of Token_value v \<Rightarrow> is_binary32 v | Token_type ty \<Rightarrow> True)"

text \<open>
  The 64-bit format of the specification (\<open>float64\<close>, IEEE 754 binary64) in the same model:
  its numbers and its rounding.
\<close>

definition is_binary64 :: "float \<Rightarrow> bool" where
  "is_binary64 f = in_format 53 1023 f"

definition round_double :: "rat \<Rightarrow> float" where
  "round_double q = round_to_format 53 1023 q"

text \<open>
  The text of the literal that starts at \<open>position\<close>, the argument \<open>GetLiteral\<close> passes to
  \<open>std::stof\<close>; and the tokens of which every literal holds the \<open>float\<close> its text rounds to,
  the text being the one at the token's entry in \<open>token_positions\<close>.
\<close>

definition literal_text :: "string \<Rightarrow> nat \<Rightarrow> string" where
  "literal_text source position =
     take (literal_loop source position False - position) (drop position source)"

definition literal_of_text :: "string \<Rightarrow> Token list \<Rightarrow> nat list \<Rightarrow> bool" where
  "literal_of_text source tokens token_positions =
     (\<forall>i < length tokens. \<forall>v. tokens ! i = Token_value v
        \<longrightarrow> v = round_float (decimal_value (literal_text source (token_positions ! i))))"

section \<open>Properties of rounding\<close>

lemma bitlen_nonpos: "n \<le> 0 \<Longrightarrow> bitlen n = 0"
  by (subst bitlen.simps) simp

lemma bitlen_pos: "0 < n \<Longrightarrow> bitlen n = Suc (bitlen (n div 2))"
  by (subst bitlen.simps) simp

lemma bitlen_double: "0 < n \<Longrightarrow> bitlen (2 * n) = Suc (bitlen n)"
  by (subst bitlen.simps) simp

lemma bitlen_shift: "0 < n \<Longrightarrow> bitlen (n * 2 ^ j) = bitlen n + j"
proof (induction j)
  case 0
  then show ?case by simp
next
  case (Suc j)
  then have "0 < n * 2 ^ j" by simp
  from bitlen_double [OF this] Suc show ?case by (simp add: mult.commute mult.left_commute)
qed

lemma bitlen_upper: "0 \<le> n \<Longrightarrow> n < 2 ^ bitlen n"
proof (induction n rule: bitlen.induct)
  case (1 n)
  show ?case
  proof (cases "n \<le> 0")
    case True
    with 1 show ?thesis by (simp add: bitlen_nonpos)
  next
    case False
    then have "n div 2 < 2 ^ bitlen (n div 2)" using 1 by simp
    then have "n < 2 * 2 ^ bitlen (n div 2)" by linarith
    with False show ?thesis by (simp add: bitlen_pos)
  qed
qed

lemma bitlen_lower: "0 < n \<Longrightarrow> 2 ^ (bitlen n - 1) \<le> n"
proof (induction n rule: bitlen.induct)
  case (1 n)
  show ?case
  proof (cases "n div 2 \<le> 0")
    case True
    with 1 have "n = 1" by linarith
    then show ?thesis by (simp add: bitlen_pos bitlen_nonpos)
  next
    case False
    then have "2 ^ (bitlen (n div 2) - 1) \<le> n div 2" using 1 by simp
    moreover from False have "bitlen (n div 2) = Suc (bitlen (n div 2 div 2))"
      by (simp add: bitlen_pos)
    ultimately have "2 ^ bitlen (n div 2) \<le> 2 * (n div 2)" by simp
    also have "\<dots> \<le> n" by linarith
    finally show ?thesis using 1 by (simp add: bitlen_pos)
  qed
qed

lemma bitlen_le: "0 < n \<Longrightarrow> n < 2 ^ j \<Longrightarrow> bitlen n \<le> j"
proof (rule ccontr)
  assume n: "0 < n" "n < 2 ^ j" and "\<not> bitlen n \<le> j"
  then have "j \<le> bitlen n - 1" by simp
  then have "(2::int) ^ j \<le> 2 ^ (bitlen n - 1)" by (rule power_increasing) simp
  with bitlen_lower [OF n(1)] n(2) show False by linarith
qed

lemma bitlen_ge: "2 ^ j \<le> n \<Longrightarrow> j < bitlen n"
proof (rule ccontr)
  assume n: "2 ^ j \<le> n" and "\<not> j < bitlen n"
  then have "bitlen n \<le> j" by simp
  then have "(2::int) ^ bitlen n \<le> 2 ^ j" by (rule power_increasing) simp
  moreover have "(0::int) \<le> 2 ^ j" by simp
  with n have "0 \<le> n" by linarith
  ultimately show False using bitlen_upper [of n] n by linarith
qed

lemma bitlen_power: "bitlen (2 ^ j) = Suc j"
  using bitlen_shift [of 1 j] by (simp add: bitlen_pos bitlen_nonpos)

lemma round_half_even_of_int: "round_half_even (of_int m) = m"
  by (simp add: round_half_even_def)

lemma round_magnitude_units:
  "round_magnitude p emax a =
     (let x = a * 2 ^ (emax + p - 2);
          k = (if x < 2 ^ p then 0 else bitlen \<lfloor>x\<rfloor> - p)
      in of_int (round_half_even (x / 2 ^ k)) * 2 ^ k / 2 ^ (emax + p - 2))"
  by (simp add: round_magnitude_def Let_def)

lemma round_magnitude_exact:
  assumes x: "a * 2 ^ (emax + p - 2) = of_int n" and n: "0 < n"
    and m: "n mod 2 ^ (bitlen n - p) = 0"
  shows "round_magnitude p emax a = a"
proof -
  define k where "k = (if (of_int n :: rat) < 2 ^ p then 0 else bitlen n - p)"
  have "2 ^ k dvd n" using m by (auto simp: k_def mod_eq_0_iff_dvd)
  then obtain c where c: "n = c * 2 ^ k" by (auto simp: dvd_def mult.commute)
  have "(of_int n :: rat) / 2 ^ k = of_int c"
    by (subst c) simp
  then have r: "round_half_even (of_int n / 2 ^ k) = c"
    by (simp only: round_half_even_of_int)
  have "round_magnitude p emax a = of_int (round_half_even (of_int n / 2 ^ k)) * 2 ^ k / 2 ^ (emax + p - 2)"
    unfolding round_magnitude_units x Let_def floor_of_int k_def ..
  also have "\<dots> = of_int (c * 2 ^ k) / 2 ^ (emax + p - 2)"
    unfolding r by simp
  also have "\<dots> = a"
    unfolding c [symmetric] x [symmetric] by simp
  finally show ?thesis .
qed

lemma round_to_format_exact:
  assumes "in_format p emax (Finite q)"
  shows "round_to_format p emax q = Finite q"
proof (cases "q = 0")
  case True
  then show ?thesis by (simp add: round_to_format_def)
next
  case False
  let ?x = "\<bar>q\<bar> * 2 ^ (emax + p - 2)"
  from assms have x: "of_int \<lfloor>?x\<rfloor> = ?x" and small: "\<bar>q\<bar> < 2 ^ (emax + 1)"
    and m: "\<lfloor>?x\<rfloor> mod 2 ^ (bitlen \<lfloor>?x\<rfloor> - p) = 0"
    by (simp_all add: in_format_def Let_def)
  from False have "0 < ?x" by simp
  with x have "0 < \<lfloor>?x\<rfloor>" by (metis of_int_0_less_iff)
  from round_magnitude_exact [OF x [symmetric] this m]
  have "round_magnitude p emax \<bar>q\<bar> = \<bar>q\<bar>" .
  with False small show ?thesis
    by (auto simp: round_to_format_def Let_def)
qed

lemma in_format_int:
  assumes "\<bar>i\<bar> \<le> 2 ^ p" "p \<le> emax" "1 \<le> p"
  shows "in_format p emax (Finite (of_int i))"
proof (cases "i = 0")
  case True
  then show ?thesis by (simp add: in_format_def bitlen_nonpos)
next
  case False
  let ?j = "emax + p - 2"
  let ?n = "\<bar>i\<bar> * 2 ^ ?j"
  have x: "\<bar>of_int i :: rat\<bar> * 2 ^ ?j = of_int ?n" by simp
  from False have pos: "0 < \<bar>i\<bar>" by simp
  have bl: "bitlen ?n = bitlen \<bar>i\<bar> + ?j" using pos by (rule bitlen_shift)
  have d: "2 ^ (bitlen ?n - p) dvd ?n"
  proof (cases "\<bar>i\<bar> = 2 ^ p")
    case True
    then have "?n = 2 ^ (p + ?j)" by (simp add: power_add)
    moreover from True have "bitlen ?n = Suc p + ?j" using bl by (simp add: bitlen_power)
    moreover have "Suc p + ?j - p \<le> p + ?j" using assms(3) by simp
    ultimately show ?thesis by (simp only: le_imp_power_dvd)
  next
    case ne: False
    with assms(1) have "\<bar>i\<bar> < 2 ^ p" by simp
    from bitlen_le [OF pos this] bl have "bitlen ?n - p \<le> ?j" by simp
    then have "(2::int) ^ (bitlen ?n - p) dvd 2 ^ ?j" by (rule le_imp_power_dvd)
    then show ?thesis by (rule dvd_mult)
  qed
  have "(2::rat) ^ p \<le> 2 ^ emax" using assms(2) by (intro power_increasing) simp_all
  also have "\<dots> < 2 ^ (emax + 1)" by simp
  finally have "(2::rat) ^ p < 2 ^ (emax + 1)" .
  moreover from assms(1) have "\<bar>of_int i :: rat\<bar> \<le> 2 ^ p"
    by (metis of_int_abs of_int_le_iff of_int_numeral of_int_power)
  ultimately have "\<bar>of_int i :: rat\<bar> < 2 ^ (emax + 1)" by simp
  with d show ?thesis
    unfolding in_format_def float.case Let_def x floor_of_int
    by (simp add: mod_eq_0_iff_dvd)
qed

lemma round_float_int: "q \<in> \<int> \<Longrightarrow> \<bar>q\<bar> \<le> 2 ^ 24 \<Longrightarrow> round_float q = Finite q"
proof -
  assume "q \<in> \<int>" and le: "\<bar>q\<bar> \<le> 2 ^ 24"
  then obtain i where q: "q = of_int i" by (auto elim: Ints_cases)
  with le have "\<bar>i\<bar> \<le> 2 ^ 24"
    by (metis of_int_abs of_int_le_iff of_int_numeral of_int_power)
  then have "in_format 24 127 (Finite (of_int i))" by (intro in_format_int) simp_all
  then show ?thesis unfolding round_float_def q by (rule round_to_format_exact)
qed

lemma round_float_code [code]:
  "round_float q =
     (if of_int \<lfloor>q\<rfloor> = q \<and> \<bar>q\<bar> \<le> 2 ^ 24 then Finite q else round_to_format 24 127 q)"
proof (cases "of_int \<lfloor>q\<rfloor> = q \<and> \<bar>q\<bar> \<le> 2 ^ 24")
  case True
  then have "q \<in> \<int>" by (metis Ints_of_int)
  with True show ?thesis by (simp add: round_float_int)
next
  case False
  then show ?thesis by (auto simp: round_float_def)
qed

lemma round_half_even_floor:
  "round_half_even y = \<lfloor>y\<rfloor> \<or> round_half_even y = \<lfloor>y\<rfloor> + 1"
  by (simp add: round_half_even_def Let_def)

lemma round_half_even_nonneg: "0 \<le> y \<Longrightarrow> 0 \<le> round_half_even y"
  using round_half_even_floor [of y] by (auto simp: zero_le_floor)

lemma round_half_even_le: "y < of_int N \<Longrightarrow> round_half_even y \<le> N"
proof -
  assume "y < of_int N"
  then have "\<lfloor>y\<rfloor> < N" by (simp add: floor_less_iff)
  with round_half_even_floor [of y] show ?thesis by auto
qed

lemma round_magnitude_nonneg: "0 \<le> a \<Longrightarrow> 0 \<le> round_magnitude p emax a"
  by (simp add: round_magnitude_units Let_def round_half_even_nonneg)

lemma scaled_below:
  fixes x :: rat
  assumes "0 \<le> x"
  shows "x / 2 ^ (if x < 2 ^ p then 0 else bitlen \<lfloor>x\<rfloor> - p) < 2 ^ p"
proof (cases "x < 2 ^ p")
  case True
  then show ?thesis by simp
next
  case False
  then have "(2::int) ^ p \<le> \<lfloor>x\<rfloor>" by (simp add: le_floor_iff)
  then have "p < bitlen \<lfloor>x\<rfloor>" by (rule bitlen_ge)
  then have e: "bitlen \<lfloor>x\<rfloor> - p + p = bitlen \<lfloor>x\<rfloor>" by simp
  from assms have "0 \<le> \<lfloor>x\<rfloor>" by simp
  then have "\<lfloor>x\<rfloor> < 2 ^ bitlen \<lfloor>x\<rfloor>" by (rule bitlen_upper)
  then have "\<lfloor>x\<rfloor> + 1 \<le> 2 ^ bitlen \<lfloor>x\<rfloor>" by simp
  then have "(of_int (\<lfloor>x\<rfloor> + 1) :: rat) \<le> of_int (2 ^ bitlen \<lfloor>x\<rfloor>)"
    by (simp only: of_int_le_iff)
  moreover have "x < of_int (\<lfloor>x\<rfloor> + 1)" by linarith
  ultimately have "x < 2 ^ bitlen \<lfloor>x\<rfloor>" by simp
  also have "\<dots> = 2 ^ p * 2 ^ (bitlen \<lfloor>x\<rfloor> - p)"
    by (subst (1) e [symmetric]) (simp only: power_add mult.commute)
  finally have "x / 2 ^ (bitlen \<lfloor>x\<rfloor> - p) < 2 ^ p"
    by (simp add: divide_less_eq)
  with False show ?thesis by simp
qed

lemma in_format_units:
  assumes "0 < m" "m \<le> 2 ^ p" "1 \<le> p"
    and "\<bar>q\<bar> = of_int m * 2 ^ k / 2 ^ (emax + p - 2)" "\<bar>q\<bar> < 2 ^ (emax + 1)"
  shows "in_format p emax (Finite q)"
proof -
  let ?n = "m * 2 ^ k"
  have x: "\<bar>q\<bar> * 2 ^ (emax + p - 2) = of_int ?n" using assms(4) by simp
  have bl: "bitlen ?n = bitlen m + k" using assms(1) by (rule bitlen_shift)
  have "2 ^ (bitlen ?n - p) dvd ?n"
  proof (cases "m = 2 ^ p")
    case True
    then have "?n = 2 ^ (p + k)" by (simp add: power_add)
    moreover from True bl have "bitlen ?n = Suc p + k" by (simp add: bitlen_power)
    moreover have "Suc p + k - p \<le> p + k" using assms(3) by simp
    ultimately show ?thesis by (simp only: le_imp_power_dvd)
  next
    case False
    with assms(2) have "m < 2 ^ p" by simp
    from bitlen_le [OF assms(1) this] bl have "bitlen ?n - p \<le> k" by simp
    then have "(2::int) ^ (bitlen ?n - p) dvd 2 ^ k" by (rule le_imp_power_dvd)
    then show ?thesis by (rule dvd_mult)
  qed
  with assms(5) show ?thesis
    unfolding in_format_def float.case Let_def x floor_of_int
    by (simp add: mod_eq_0_iff_dvd)
qed

lemma in_format_zero: "in_format p emax (Finite 0)"
  by (simp add: in_format_def bitlen_nonpos)

lemma round_to_format_in_format:
  assumes "1 \<le> p"
  shows "in_format p emax (round_to_format p emax q)"
proof (cases "q = 0")
  case True
  then show ?thesis by (simp add: round_to_format_def in_format_zero)
next
  case False
  define x where "x = \<bar>q\<bar> * 2 ^ (emax + p - 2)"
  define k where "k = (if x < 2 ^ p then 0 else bitlen \<lfloor>x\<rfloor> - p)"
  define m where "m = round_half_even (x / 2 ^ k)"
  define r where "r = round_magnitude p emax \<bar>q\<bar>"
  have r: "r = of_int m * 2 ^ k / 2 ^ (emax + p - 2)"
    by (simp add: r_def round_magnitude_units Let_def x_def k_def m_def)
  have "0 \<le> x" by (simp add: x_def)
  then have "x / 2 ^ k < 2 ^ p" unfolding k_def by (rule scaled_below)
  then have "x / 2 ^ k < of_int (2 ^ p)" by simp
  then have m_le: "m \<le> 2 ^ p" unfolding m_def by (rule round_half_even_le)
  have m_ge: "0 \<le> m" unfolding m_def using \<open>0 \<le> x\<close> by (intro round_half_even_nonneg) simp
  show ?thesis
  proof (cases "2 ^ (emax + 1) \<le> r \<or> r = 0")
    case True
    then show ?thesis
      using False by (auto simp: round_to_format_def Let_def r_def [symmetric] in_format_def)
  next
    case fin: False
    then have "m \<noteq> 0" using r by auto
    with m_ge have "0 < m" by simp
    have "in_format p emax (Finite (if 0 < q then r else - r))"
    proof (rule in_format_units [OF \<open>0 < m\<close> m_le assms])
      have "0 \<le> r" unfolding r_def by (rule round_magnitude_nonneg) simp
      then have a: "\<bar>if 0 < q then r else - r\<bar> = r" by simp
      show "\<bar>if 0 < q then r else - r\<bar> = of_int m * 2 ^ k / 2 ^ (emax + p - 2)"
        unfolding a by (rule r)
      show "\<bar>if 0 < q then r else - r\<bar> < 2 ^ (emax + 1)"
        unfolding a using fin by simp
    qed
    with fin False show ?thesis
      by (simp add: round_to_format_def Let_def r_def [symmetric])
  qed
qed

lemma is_binary32_round_float: "is_binary32 (round_float q)"
  unfolding is_binary32_def round_float_def by (rule round_to_format_in_format) simp

lemma is_binary32_special:
  "is_binary32 NaN" "is_binary32 PosInf" "is_binary32 NegInf" "is_binary32 NegZero"
  "is_binary32 (Finite 0)" "is_binary32 (signed_zero s)" "is_binary32 (signed_infinity s)"
  by (simp_all add: is_binary32_def in_format_def signed_zero_def signed_infinity_def bitlen_nonpos)

lemma is_binary32_float_neg: "is_binary32 x \<Longrightarrow> is_binary32 (float_neg x)"
  by (cases x) (simp_all add: is_binary32_def in_format_def Let_def)

lemma is_binary32_float_add: "is_binary32 x \<Longrightarrow> is_binary32 y \<Longrightarrow> is_binary32 (float_add x y)"
  by (simp add: float_add_def Let_def is_binary32_special is_binary32_round_float)

lemma is_binary32_float_sub: "is_binary32 x \<Longrightarrow> is_binary32 y \<Longrightarrow> is_binary32 (float_sub x y)"
  by (simp add: float_sub_def is_binary32_float_add is_binary32_float_neg)

lemma is_binary32_float_mul: "is_binary32 (float_mul x y)"
  by (simp add: float_mul_def Let_def is_binary32_special is_binary32_round_float)

lemma is_binary32_float_div: "is_binary32 (float_div x y)"
  by (simp add: float_div_def Let_def is_binary32_special is_binary32_round_float)

lemma round_to_format_nonneg:
  assumes "0 \<le> q"
  shows "round_to_format p emax q = PosInf
    \<or> (\<exists>r. round_to_format p emax q = Finite r \<and> 0 \<le> r)"
proof -
  have "0 \<le> round_magnitude p emax \<bar>q\<bar>" by (rule round_magnitude_nonneg) simp
  with assms show ?thesis
    by (auto simp: round_to_format_def Let_def)
qed

text \<open>
  Rounding gives a nearest number of the format: no number of the format is closer to the
  exact value than the result, whenever the result is finite. A tie goes to the even
  significand.
\<close>

lemma round_half_even_nearest:
  "\<bar>of_int (round_half_even x) - x\<bar> \<le> \<bar>of_int n - x\<bar>"
proof -
  define f where "f = \<lfloor>x\<rfloor>"
  define d where "d = x - of_int f"
  have d: "0 \<le> d" "d < 1" and x: "x = of_int f + d"
    unfolding d_def f_def by linarith+
  have r: "round_half_even x = (if d < 1 / 2 then f else if 1 / 2 < d then f + 1
      else if even f then f else f + 1)"
    by (simp add: round_half_even_def Let_def f_def d_def)
  consider "n \<le> f" | "f + 1 \<le> n" by linarith
  then show ?thesis
  proof cases
    case 1
    then have "(of_int n :: rat) \<le> of_int f" by simp
    with d x have "\<bar>of_int n - x\<bar> \<ge> d" by linarith
    moreover have "\<bar>of_int (round_half_even x) - x\<bar> \<le> d"
      unfolding r using d x by (auto simp: abs_if)
    ultimately show ?thesis by linarith
  next
    case 2
    then have "(of_int n :: rat) \<ge> of_int f + 1"
      by (metis of_int_1 of_int_add of_int_le_iff)
    with d x have "\<bar>of_int n - x\<bar> \<ge> 1 - d" by linarith
    moreover have "\<bar>of_int (round_half_even x) - x\<bar> \<le> 1 - d"
      unfolding r using d x by (auto simp: abs_if)
    ultimately show ?thesis by linarith
  qed
qed

lemma round_half_even_tie: "even (round_half_even (of_int n + 1 / 2))"
proof -
  have "\<lfloor>(of_int n :: rat) + 1 / 2\<rfloor> = n" by linarith
  then show ?thesis
    by (simp add: round_half_even_def Let_def)
qed

lemma round_half_even_scaled_nearest:
  "\<bar>of_int (round_half_even (x / 2 ^ k)) * 2 ^ k - x\<bar> \<le> \<bar>of_int j * 2 ^ k - x\<bar>"
proof -
  have s: "\<bar>of_int i * 2 ^ k - x\<bar> = \<bar>of_int i - x / 2 ^ k\<bar> * 2 ^ k" for i :: int
  proof -
    have "of_int i * 2 ^ k - x = (of_int i - x / 2 ^ k) * 2 ^ k"
      by (simp add: field_simps)
    then show ?thesis by (simp add: abs_mult)
  qed
  have "\<bar>of_int (round_half_even (x / 2 ^ k)) - x / 2 ^ k\<bar> * 2 ^ k
      \<le> \<bar>of_int j - x / 2 ^ k\<bar> * 2 ^ k"
    by (rule mult_right_mono [OF round_half_even_nearest]) simp
  then show ?thesis by (simp only: s)
qed

lemma round_units_nearest:
  fixes x :: rat and N :: int
  assumes p: "1 \<le> p" and x: "0 < x" and N: "0 \<le> N" "N mod 2 ^ (bitlen N - p) = 0"
  defines "k \<equiv> (if x < 2 ^ p then 0 else bitlen \<lfloor>x\<rfloor> - p)"
  shows "\<bar>of_int (round_half_even (x / 2 ^ k)) * 2 ^ k - x\<bar> \<le> \<bar>of_int N - x\<bar>"
proof (cases "2 ^ k dvd N")
  case True
  then obtain c where "N = c * 2 ^ k" by (auto simp: dvd_def mult.commute)
  then have "(of_int N :: rat) = of_int c * 2 ^ k" by simp
  then show ?thesis by (simp only: round_half_even_scaled_nearest)
next
  case False
  then have k: "0 < k" by (cases k) simp_all
  then have big: "\<not> x < 2 ^ p" and kx: "k = bitlen \<lfloor>x\<rfloor> - p"
    by (simp_all add: k_def split: if_splits)
  from k kx have bl: "bitlen \<lfloor>x\<rfloor> = p + k" by simp
  have "bitlen N - p < k"
  proof (rule ccontr)
    assume "\<not> bitlen N - p < k"
    then have "(2::int) ^ k dvd 2 ^ (bitlen N - p)" by (simp add: le_imp_power_dvd)
    moreover from N(2) have "2 ^ (bitlen N - p) dvd N" by (simp add: mod_eq_0_iff_dvd)
    ultimately show False using False by (rule_tac notE [OF False]) (rule dvd_trans)
  qed
  then have "bitlen N \<le> p + k - 1" using k by simp
  then have "(2::int) ^ bitlen N \<le> 2 ^ (p + k - 1)" by (rule power_increasing) simp
  with bitlen_upper [OF N(1)] have NB: "N < 2 ^ (p + k - 1)" by linarith
  from x have "0 \<le> \<lfloor>x\<rfloor>" by simp
  then have "0 < \<lfloor>x\<rfloor> \<or> \<lfloor>x\<rfloor> = 0" by linarith
  with bl k p have fx: "0 < \<lfloor>x\<rfloor>" by (auto simp: bitlen_nonpos)
  from bitlen_lower [OF fx] bl have "2 ^ (p + k - 1) \<le> \<lfloor>x\<rfloor>" by simp
  then have "(of_int (2 ^ (p + k - 1)) :: rat) \<le> of_int \<lfloor>x\<rfloor>" by (simp only: of_int_le_iff)
  then have Bx: "(2 :: rat) ^ (p + k - 1) \<le> x" by (simp add: le_floor_iff)
  from NB have "(of_int N :: rat) < of_int (2 ^ (p + k - 1))" by (simp only: of_int_less_iff)
  then have NB': "(of_int N :: rat) < 2 ^ (p + k - 1)" by simp
  from p have "p + k - 1 = (p - 1) + k" by simp
  then have "(2 :: rat) ^ (p + k - 1) = of_int (2 ^ (p - 1)) * 2 ^ k"
    by (simp add: power_add)
  with round_half_even_scaled_nearest [of x k "2 ^ (p - 1)"]
  have "\<bar>of_int (round_half_even (x / 2 ^ k)) * 2 ^ k - x\<bar> \<le> \<bar>2 ^ (p + k - 1) - x\<bar>"
    by simp
  with Bx NB' show ?thesis by linarith
qed

lemma round_magnitude_nearest:
  assumes p: "1 \<le> p" and a: "0 < a" and y: "0 \<le> y" "in_format p emax (Finite y)"
  shows "\<bar>round_magnitude p emax a - a\<bar> \<le> \<bar>y - a\<bar>"
proof -
  define E where "E = emax + p - 2"
  define x where "x = a * 2 ^ E"
  define N where "N = \<lfloor>y * 2 ^ E\<rfloor>"
  define k where "k = (if x < 2 ^ p then 0 else bitlen \<lfloor>x\<rfloor> - p)"
  define R where "R = of_int (round_half_even (x / 2 ^ k)) * (2 :: rat) ^ k"
  from a have x: "0 < x" by (simp add: x_def)
  from y have N: "of_int N = y * 2 ^ E" "N mod 2 ^ (bitlen N - p) = 0"
    by (simp_all add: in_format_def Let_def N_def E_def)
  from y(1) have N0: "0 \<le> N" by (simp add: N_def)
  have rm: "round_magnitude p emax a = R / 2 ^ E"
    by (simp add: round_magnitude_units Let_def R_def k_def x_def E_def)
  have "\<bar>R - x\<bar> \<le> \<bar>of_int N - x\<bar>"
    unfolding R_def k_def by (rule round_units_nearest [OF p x N0 N(2)])
  then have "\<bar>R - x\<bar> / 2 ^ E \<le> \<bar>of_int N - x\<bar> / 2 ^ E"
    by (simp add: divide_right_mono)
  moreover have s: "\<bar>z - x\<bar> / 2 ^ E = \<bar>z / 2 ^ E - a\<bar>" for z
  proof -
    have "z / 2 ^ E - a = (z - x) / 2 ^ E"
      by (simp add: x_def diff_divide_distrib)
    then show ?thesis by simp
  qed
  moreover have "of_int N / 2 ^ E = y"
    by (simp add: N(1))
  ultimately show ?thesis by (simp add: rm)
qed

lemma in_format_abs: "in_format p emax (Finite \<bar>y\<bar>) = in_format p emax (Finite y)"
  by (simp add: in_format_def)

lemma round_to_format_nearest:
  assumes p: "1 \<le> p" and fin: "is_finite (round_to_format p emax q)"
    and y: "in_format p emax (Finite y)"
  shows "\<bar>valof (round_to_format p emax q) - q\<bar> \<le> \<bar>y - q\<bar>"
proof (cases "q = 0")
  case True
  then show ?thesis by (simp add: round_to_format_def)
next
  case False
  define r where "r = round_magnitude p emax \<bar>q\<bar>"
  have rf: "round_to_format p emax q =
      (if 2 ^ (emax + 1) \<le> r then (if 0 < q then PosInf else NegInf)
       else if r = 0 then (if 0 < q then Finite 0 else NegZero)
       else Finite (if 0 < q then r else - r))"
    using False by (simp add: round_to_format_def Let_def r_def)
  have v: "valof (round_to_format p emax q) = (if 0 < q then r else - r)"
  proof (cases "2 ^ (emax + 1) \<le> r")
    case True
    with fin rf show ?thesis by (simp split: if_splits)
  next
    case False
    then show ?thesis by (simp add: rf)
  qed
  from False have q: "0 < \<bar>q\<bar>" by simp
  have ay: "0 \<le> \<bar>y\<bar>" by simp
  from y have "in_format p emax (Finite \<bar>y\<bar>)" by (simp only: in_format_abs)
  from round_magnitude_nearest [OF p q ay this]
  have "\<bar>r - \<bar>q\<bar>\<bar> \<le> \<bar>\<bar>y\<bar> - \<bar>q\<bar>\<bar>" by (simp only: r_def)
  also have "\<dots> \<le> \<bar>y - q\<bar>" by (rule abs_triangle_ineq3)
  finally have "\<bar>r - \<bar>q\<bar>\<bar> \<le> \<bar>y - q\<bar>" .
  moreover have "\<bar>(if 0 < q then r else - r) - q\<bar> = \<bar>r - \<bar>q\<bar>\<bar>"
    by (cases "0 < q") (simp_all add: abs_if)
  ultimately show ?thesis by (simp only: v)
qed

lemma round_float_nearest:
  assumes "is_finite (round_float q)" "is_binary32 (Finite y)"
  shows "\<bar>valof (round_float q) - q\<bar> \<le> \<bar>y - q\<bar>"
  using assms round_to_format_nearest [of 24 127 q y]
  by (simp add: round_float_def is_binary32_def)

section \<open>Properties of the parser\<close>

lemma Check_next_type:
  "position \<le> length tokens
   \<Longrightarrow> Check tokens position type = Inr (next_type tokens position = Some type)"
  by (auto simp: Check_def IsAtEnd_def index_read_def next_type_def)

lemma Match_next_type:
  "position \<le> length tokens
   \<Longrightarrow> Match tokens position types = Inr (\<exists>t \<in> set types. next_type tokens position = Some t)"
proof (induction tokens position types rule: Match.induct)
  case (1 tokens position)
  then show ?case by simp
next
  case (2 tokens position first)
  then show ?case by (simp add: Check_next_type)
next
  case (3 tokens position first v va)
  then show ?case by (cases "next_type tokens position = Some first") (simp_all add: Check_next_type)
qed

lemma next_type_append:
  "next_type (pre @ t # post) (length pre) = Some (token_type t)"
  by (simp add: next_type_def)

lemma next_type_end: "next_type tokens (length tokens) = None"
  by (simp add: next_type_def)

lemma index_read_next_type:
  "next_type tokens position = Some t \<Longrightarrow> \<exists>token. index_read tokens position = Inr token \<and> token_type token = t"
  by (auto simp: next_type_def index_read_def split: if_splits)

lemma next_type_in_bounds: "next_type tokens position = Some t \<Longrightarrow> position < length tokens"
  by (simp add: next_type_def split: if_splits)

lemma Term_loop_stop:
  assumes "position \<le> length tokens" "next_type tokens position \<noteq> Some ADD"
    "next_type tokens position \<noteq> Some SUB"
  shows "Term_loop tokens expr position = Return expr position"
  using assms by (subst Term_loop.simps) (simp add: Match_next_type del: Match.simps)

lemma Factor_loop_stop:
  assumes "position \<le> length tokens" "next_type tokens position \<noteq> Some MUL"
    "next_type tokens position \<noteq> Some DIV"
  shows "Factor_loop tokens expr position = Return expr position"
  using assms by (subst Factor_loop.simps) (simp add: Match_next_type del: Match.simps)

lemma Term_loop_ADD:
  assumes "next_type tokens position = Some ADD"
  shows "Term_loop tokens expr position =
     (case Factor tokens (position + 1) of
        Return rhs position' \<Rightarrow> Term_loop tokens (AddExpression expr rhs) position'
      | Throw position' \<Rightarrow> Throw position'
      | Undefined ub \<Rightarrow> Undefined ub)"
proof -
  from assms have "position \<le> length tokens"
    by (simp add: next_type_def split: if_splits)
  moreover from index_read_next_type [OF assms] obtain token
    where "index_read tokens position = Inr token" "token_type token = ADD" by blast
  ultimately show ?thesis
    using assms by (subst Term_loop.simps) (simp add: Match_next_type del: Match.simps split: outcome.split)
qed

lemma Term_loop_SUB:
  assumes "next_type tokens position = Some SUB"
  shows "Term_loop tokens expr position =
     (case Factor tokens (position + 1) of
        Return rhs position' \<Rightarrow> Term_loop tokens (SubtractExpression expr rhs) position'
      | Throw position' \<Rightarrow> Throw position'
      | Undefined ub \<Rightarrow> Undefined ub)"
proof -
  from assms have "position \<le> length tokens"
    by (simp add: next_type_def split: if_splits)
  moreover from index_read_next_type [OF assms] obtain token
    where "index_read tokens position = Inr token" "token_type token = SUB" by blast
  ultimately show ?thesis
    using assms by (subst Term_loop.simps) (simp add: Match_next_type del: Match.simps split: outcome.split)
qed

lemma Factor_loop_MUL:
  assumes "next_type tokens position = Some MUL"
  shows "Factor_loop tokens expr position =
     (case Primary tokens (position + 1) of
        Return rhs position' \<Rightarrow> Factor_loop tokens (MultiplyExpression expr rhs) position'
      | Throw position' \<Rightarrow> Throw position'
      | Undefined ub \<Rightarrow> Undefined ub)"
proof -
  from assms have "position \<le> length tokens"
    by (simp add: next_type_def split: if_splits)
  moreover from index_read_next_type [OF assms] obtain token
    where "index_read tokens position = Inr token" "token_type token = MUL" by blast
  ultimately show ?thesis
    using assms by (subst Factor_loop.simps) (simp add: Match_next_type del: Match.simps split: outcome.split)
qed

lemma Factor_loop_DIV:
  assumes "next_type tokens position = Some DIV"
  shows "Factor_loop tokens expr position =
     (case Primary tokens (position + 1) of
        Return rhs position' \<Rightarrow> Factor_loop tokens (DivideExpression expr rhs) position'
      | Throw position' \<Rightarrow> Throw position'
      | Undefined ub \<Rightarrow> Undefined ub)"
proof -
  from assms have "position \<le> length tokens"
    by (simp add: next_type_def split: if_splits)
  moreover from index_read_next_type [OF assms] obtain token
    where "index_read tokens position = Inr token" "token_type token = DIV" by blast
  ultimately show ?thesis
    using assms by (subst Factor_loop.simps) (simp add: Match_next_type del: Match.simps split: outcome.split)
qed

lemma Primary_literal:
  assumes "position < length tokens" "tokens ! position = Token_value v"
  shows "Primary tokens position = Return (LiteralExpression v) (position + 1)"
  using assms
  by (subst Primary.simps) (simp add: Match_next_type next_type_def index_read_def del: Match.simps)

lemma Primary_paren:
  assumes "next_type tokens position = Some LEFT_PAREN"
  shows "Primary tokens position =
     (case Term tokens (position + 1) of
        Return expr position' \<Rightarrow>
          (case Consume tokens position' RIGHT_PAREN of
             Return u position'' \<Rightarrow> Return expr position''
           | Throw position'' \<Rightarrow> Throw position''
           | Undefined ub \<Rightarrow> Undefined ub)
      | Throw position' \<Rightarrow> Throw position'
      | Undefined ub \<Rightarrow> Undefined ub)"
proof -
  from assms have "position \<le> length tokens"
    by (simp add: next_type_def split: if_splits)
  then show ?thesis
    using assms by (subst Primary.simps) (simp add: Match_next_type del: Match.simps)
qed

lemma Primary_throw:
  assumes "position \<le> length tokens" "next_type tokens position \<noteq> Some LITERAL"
    "next_type tokens position \<noteq> Some LEFT_PAREN"
  shows "Primary tokens position = Throw position"
  using assms by (subst Primary.simps) (simp add: Match_next_type del: Match.simps)

lemma Consume_next_type:
  "next_type tokens position = Some t
   \<Longrightarrow> Consume tokens position type = (if t \<noteq> type then Throw position else Return () (position + 1))"
  by (auto simp: Consume_def next_type_def index_read_def split: if_splits)

lemma next_type_shift: "next_type (xs @ ys) (length xs + n) = next_type ys n"
  by (simp add: next_type_def)

lemma next_type_Cons_0: "next_type (t # ts) 0 = Some (token_type t)"
  by (simp add: next_type_def)

lemma next_type_Nil: "next_type [] n = None"
  by (simp add: next_type_def)

lemma derivation_parse:
  shows "derives_primary ts e
      \<Longrightarrow> Primary (pre @ ts @ post) (length pre) = Return e (length pre + length ts)"
    and "derives_factor ts e
      \<Longrightarrow> Factor (pre @ ts @ post) (length pre)
          = Factor_loop (pre @ ts @ post) e (length pre + length ts)"
    and "derives_term ts e
      \<Longrightarrow> next_type post 0 \<noteq> Some MUL \<Longrightarrow> next_type post 0 \<noteq> Some DIV
      \<Longrightarrow> Term (pre @ ts @ post) (length pre)
          = Term_loop (pre @ ts @ post) e (length pre + length ts)"
proof (induction arbitrary: pre post and pre post and pre post
    rule: derives_primary_derives_factor_derives_term.inducts)
  case (literal v)
  show ?case
    using Primary_literal [of "length pre" "pre @ [Token_value v] @ post" v] by simp
next
  case (parens ts e)
  let ?all = "pre @ Token_type LEFT_PAREN # ts @ Token_type RIGHT_PAREN # post"
  have open_paren: "next_type ?all (length pre) = Some LEFT_PAREN"
    by (simp add: next_type_append)
  have close_paren: "next_type ?all (length pre + 1 + length ts) = Some RIGHT_PAREN"
    using next_type_shift [of "pre @ Token_type LEFT_PAREN # ts" "Token_type RIGHT_PAREN # post" 0]
    by (simp add: next_type_Cons_0)
  have "Term ?all (length pre + 1) = Term_loop ?all e (length pre + 1 + length ts)"
    using parens.IH [of "Token_type RIGHT_PAREN # post" "pre @ [Token_type LEFT_PAREN]"]
    by (simp add: next_type_Cons_0)
  also have "\<dots> = Return e (length pre + 1 + length ts)"
    using close_paren by (intro Term_loop_stop) (simp_all add: next_type_in_bounds less_imp_le)
  finally have inner: "Term ?all (length pre + 1) = Return e (length pre + 1 + length ts)" .
  have "Primary ?all (length pre) = Return e (length pre + 1 + length ts + 1)"
    by (simp only: Primary_paren [OF open_paren] inner outcome.case
        Consume_next_type [OF close_paren]) simp
  then show ?case by simp
next
  case (primary ts e)
  show ?case
    by (subst Factor.simps) (simp add: primary.IH)
next
  case (mul ts1 e1 ts2 e2)
  let ?all = "pre @ ts1 @ Token_type MUL # ts2 @ post"
    have op: "next_type ?all (length pre + length ts1) = Some MUL"
    using next_type_shift [of "pre @ ts1" "Token_type MUL # ts2 @ post" 0]
    by (simp add: next_type_Cons_0)
  have "Factor ?all (length pre) = Factor_loop ?all e1 (length pre + length ts1)"
    using mul.IH(1) [of pre "Token_type MUL # ts2 @ post"] by simp
  also have "\<dots> = Factor_loop ?all (MultiplyExpression e1 e2) (length pre + length ts1 + 1 + length ts2)"
    using mul.IH(2) [of "pre @ ts1 @ [Token_type MUL]" post]
    by (simp add: Factor_loop_MUL [OF op])
  finally show ?case by (simp add: add.assoc)
next
  case (div ts1 e1 ts2 e2)
  let ?all = "pre @ ts1 @ Token_type DIV # ts2 @ post"
  have op: "next_type ?all (length pre + length ts1) = Some DIV"
    using next_type_shift [of "pre @ ts1" "Token_type DIV # ts2 @ post" 0]
    by (simp add: next_type_Cons_0)
  have "Factor ?all (length pre) = Factor_loop ?all e1 (length pre + length ts1)"
    using div.IH(1) [of pre "Token_type DIV # ts2 @ post"] by simp
  also have "\<dots> = Factor_loop ?all (DivideExpression e1 e2) (length pre + length ts1 + 1 + length ts2)"
    using div.IH(2) [of "pre @ ts1 @ [Token_type DIV]" post]
    by (simp add: Factor_loop_DIV [OF op])
  finally show ?case by (simp add: add.assoc)
next
  case (factor ts e)
  have "Factor_loop (pre @ ts @ post) e (length pre + length ts) = Return e (length pre + length ts)"
    using factor.prems next_type_shift [of "pre @ ts" post 0]
    by (intro Factor_loop_stop) (simp_all add: add.assoc)
  then show ?case
    by (subst Term.simps) (simp add: factor.IH)
next
  case (add ts1 e1 ts2 e2)
  let ?all = "pre @ ts1 @ Token_type ADD # ts2 @ post"
  have op: "next_type ?all (length pre + length ts1) = Some ADD"
    using next_type_shift [of "pre @ ts1" "Token_type ADD # ts2 @ post" 0]
    by (simp add: next_type_Cons_0)
  have stop: "Factor_loop ?all e2 (length pre + length ts1 + 1 + length ts2)
      = Return e2 (length pre + length ts1 + 1 + length ts2)"
    using add.prems next_type_shift [of "pre @ ts1 @ Token_type ADD # ts2" post 0]
    by (intro Factor_loop_stop) (simp_all add: add.assoc)
  have "Term ?all (length pre) = Term_loop ?all e1 (length pre + length ts1)"
    using add.IH(1) [of "Token_type ADD # ts2 @ post" pre]
    by (simp add: next_type_Cons_0)
  also have "\<dots> = Term_loop ?all (AddExpression e1 e2) (length pre + length ts1 + 1 + length ts2)"
    using add.IH(2) [of "pre @ ts1 @ [Token_type ADD]" post] stop
    by (simp add: Term_loop_ADD [OF op])
  finally show ?case by (simp add: add.assoc)
next
  case (sub ts1 e1 ts2 e2)
  let ?all = "pre @ ts1 @ Token_type SUB # ts2 @ post"
  have op: "next_type ?all (length pre + length ts1) = Some SUB"
    using next_type_shift [of "pre @ ts1" "Token_type SUB # ts2 @ post" 0]
    by (simp add: next_type_Cons_0)
  have stop: "Factor_loop ?all e2 (length pre + length ts1 + 1 + length ts2)
      = Return e2 (length pre + length ts1 + 1 + length ts2)"
    using sub.prems next_type_shift [of "pre @ ts1 @ Token_type SUB # ts2" post 0]
    by (intro Factor_loop_stop) (simp_all add: add.assoc)
  have "Term ?all (length pre) = Term_loop ?all e1 (length pre + length ts1)"
    using sub.IH(1) [of "Token_type SUB # ts2 @ post" pre]
    by (simp add: next_type_Cons_0)
  also have "\<dots> = Term_loop ?all (SubtractExpression e1 e2) (length pre + length ts1 + 1 + length ts2)"
    using sub.IH(2) [of "pre @ ts1 @ [Token_type SUB]" post] stop
    by (simp add: Term_loop_SUB [OF op])
  finally show ?case by (simp add: add.assoc)
qed

lemma Term_derivation: "derives_term ts e \<Longrightarrow> Term ts 0 = Return e (length ts)"
  using derivation_parse(3) [of ts e "[]" "[]"] Term_loop_stop [of "length ts" ts e]
  by (simp add: next_type_Nil next_type_end)

lemma stays_inside_trans:
  "stays_inside tokens p (Return e q) \<Longrightarrow> stays_inside tokens q r \<Longrightarrow> stays_inside tokens p r"
  by (auto simp: stays_inside_def split: outcome.splits)

lemma stays_inside_Suc: "p < length tokens \<Longrightarrow> stays_inside tokens (Suc p) r \<Longrightarrow> stays_inside tokens p r"
  by (auto simp: stays_inside_def split: outcome.splits)

lemma stays_inside_refl: "p \<le> length tokens \<Longrightarrow> stays_inside tokens p (Return e p)"
  "p \<le> length tokens \<Longrightarrow> stays_inside tokens p (Throw p)" "stays_inside tokens p (Undefined ub)"
  by (auto simp: stays_inside_def)

lemma Consume_stays_inside: "stays_inside tokens p (Consume tokens p t)"
  by (auto simp: stays_inside_def Consume_def index_read_def)

lemma parser_stays_inside:
  shows "position \<le> length tokens \<Longrightarrow> stays_inside tokens position (Term tokens position)"
    and "position \<le> length tokens \<Longrightarrow> stays_inside tokens position (Term_loop tokens expr position)"
    and "position \<le> length tokens \<Longrightarrow> stays_inside tokens position (Factor tokens position)"
    and "position \<le> length tokens \<Longrightarrow> stays_inside tokens position (Factor_loop tokens expr position)"
    and "position \<le> length tokens \<Longrightarrow> stays_inside tokens position (Primary tokens position)"
proof (induction tokens position and tokens expr position and tokens position
    and tokens expr position and tokens position
    rule: Term_Term_loop_Factor_Factor_loop_Primary.induct)
  case (1 tokens position)
  show ?case
  proof (cases "Factor tokens position")
    case (Return x q)
    with 1 have a: "stays_inside tokens position (Return x q)" by simp
    then have "q \<le> length tokens" by (simp add: stays_inside_def)
    from stays_inside_trans [OF a "1.IH"(2) [OF Return this]] Return show ?thesis
      by (subst Term.simps) simp
  next
    case (Throw q)
    with 1 show ?thesis by (subst Term.simps) (simp add: stays_inside_def)
  next
    case (Undefined ub)
    then show ?thesis by (subst Term.simps) (simp add: stays_inside_def)
  qed
next
  case (2 tokens expr position)
  show ?case
  proof (cases "next_type tokens position = Some ADD \<or> next_type tokens position = Some SUB")
    case False
    with 2 show ?thesis by (simp add: Term_loop_stop stays_inside_refl)
  next
    case True
    then have m: "Match tokens position [ADD, SUB] = Inr True"
      using "2.prems" by (auto simp: Match_next_type simp del: Match.simps)
    from True have lt: "position < length tokens" by (auto dest: next_type_in_bounds)
    then obtain token where tok: "index_read tokens position = Inr token"
      by (simp add: index_read_def)
    from lt have le: "position + 1 \<le> length tokens" by simp
    note f = "2.IH"(1) [OF m refl tok le]
    show ?thesis
    proof (cases "Factor tokens (position + 1)")
      case (Return rhs q)
      with f have a: "stays_inside tokens (position + 1) (Return rhs q)" by simp
      then have "q \<le> length tokens" by (simp add: stays_inside_def)
      from "2.IH"(2) [OF m refl tok Return this] a lt
      have "stays_inside tokens position (Term_loop tokens
              (if token_type token = ADD then AddExpression expr rhs
               else SubtractExpression expr rhs) q)"
        by (auto intro: stays_inside_Suc stays_inside_trans)
      with m tok Return show ?thesis
        by (subst Term_loop.simps) (simp del: Match.simps)
    next
      case (Throw q)
      with f lt m tok show ?thesis
        by (subst Term_loop.simps) (auto simp del: Match.simps intro: stays_inside_Suc)
    next
      case (Undefined ub)
      with m tok show ?thesis
        by (subst Term_loop.simps) (simp add: stays_inside_def del: Match.simps)
    qed
  qed
next
  case (3 tokens position)
  show ?case
  proof (cases "Primary tokens position")
    case (Return x q)
    with 3 have a: "stays_inside tokens position (Return x q)" by simp
    then have "q \<le> length tokens" by (simp add: stays_inside_def)
    from stays_inside_trans [OF a "3.IH"(2) [OF Return this]] Return show ?thesis
      by (subst Factor.simps) simp
  next
    case (Throw q)
    with 3 show ?thesis by (subst Factor.simps) (simp add: stays_inside_def)
  next
    case (Undefined ub)
    then show ?thesis by (subst Factor.simps) (simp add: stays_inside_def)
  qed
next
  case (4 tokens expr position)
  show ?case
  proof (cases "next_type tokens position = Some MUL \<or> next_type tokens position = Some DIV")
    case False
    with 4 show ?thesis by (simp add: Factor_loop_stop stays_inside_refl)
  next
    case True
    then have m: "Match tokens position [MUL, DIV] = Inr True"
      using "4.prems" by (auto simp: Match_next_type simp del: Match.simps)
    from True have lt: "position < length tokens" by (auto dest: next_type_in_bounds)
    then obtain token where tok: "index_read tokens position = Inr token"
      by (simp add: index_read_def)
    from lt have le: "position + 1 \<le> length tokens" by simp
    note f = "4.IH"(1) [OF m refl tok le]
    show ?thesis
    proof (cases "Primary tokens (position + 1)")
      case (Return rhs q)
      with f have a: "stays_inside tokens (position + 1) (Return rhs q)" by simp
      then have "q \<le> length tokens" by (simp add: stays_inside_def)
      from "4.IH"(2) [OF m refl tok Return this] a lt
      have "stays_inside tokens position (Factor_loop tokens
              (if token_type token = MUL then MultiplyExpression expr rhs
               else DivideExpression expr rhs) q)"
        by (auto intro: stays_inside_Suc stays_inside_trans)
      with m tok Return show ?thesis
        by (subst Factor_loop.simps) (simp del: Match.simps)
    next
      case (Throw q)
      with f lt m tok show ?thesis
        by (subst Factor_loop.simps) (auto simp del: Match.simps intro: stays_inside_Suc)
    next
      case (Undefined ub)
      with m tok show ?thesis
        by (subst Factor_loop.simps) (simp add: stays_inside_def del: Match.simps)
    qed
  qed
next
  case (5 tokens position)
  show ?case
  proof (cases "next_type tokens position = Some LITERAL")
    case True
    then have lt: "position < length tokens" by (auto dest: next_type_in_bounds)
    with True "5.prems" show ?thesis
      by (subst Primary.simps)
         (auto simp: Match_next_type index_read_def stays_inside_def simp del: Match.simps
               split: option.splits)
  next
    case False
    then have l: "Match tokens position [LITERAL] = Inr False"
      using "5.prems" by (simp add: Match_next_type del: Match.simps)
    show ?thesis
    proof (cases "next_type tokens position = Some LEFT_PAREN")
      case nopar: False
      with False "5.prems" show ?thesis by (simp add: Primary_throw stays_inside_refl)
    next
      case True
      then have p: "Match tokens position [LEFT_PAREN] = Inr True"
        using "5.prems" by (simp add: Match_next_type del: Match.simps)
      from True have lt: "position < length tokens" by (auto dest: next_type_in_bounds)
      then have le: "position + 1 \<le> length tokens" by simp
      note t = "5.IH" [OF l refl p refl le]
      show ?thesis
      proof (cases "Term tokens (position + 1)")
        case (Return x q)
        with t have a: "stays_inside tokens (position + 1) (Return x q)" by simp
        have "stays_inside tokens q (case Consume tokens q RIGHT_PAREN of
                 Return u position'' \<Rightarrow> Return x position''
               | Throw position'' \<Rightarrow> Throw position''
               | Undefined ub \<Rightarrow> Undefined ub)"
          using Consume_stays_inside [of tokens q RIGHT_PAREN]
          by (auto simp: stays_inside_def split: outcome.splits)
        with a lt have "stays_inside tokens position (case Consume tokens q RIGHT_PAREN of
                 Return u position'' \<Rightarrow> Return x position''
               | Throw position'' \<Rightarrow> Throw position''
               | Undefined ub \<Rightarrow> Undefined ub)"
          by (auto intro: stays_inside_Suc stays_inside_trans)
        with Return show ?thesis by (simp add: Primary_paren [OF True])
      next
        case (Throw q)
        with t lt show ?thesis
          by (auto simp: Primary_paren [OF True] intro: stays_inside_Suc)
      next
        case (Undefined ub)
        then show ?thesis by (simp add: Primary_paren [OF True] stays_inside_def)
      qed
    qed
  qed
qed

lemma Term_Throw_Factor: "Factor tokens position = Throw q \<Longrightarrow> Term tokens position = Throw q"
  by (subst Term.simps) simp

lemma Factor_Throw_Primary: "Primary tokens position = Throw q \<Longrightarrow> Factor tokens position = Throw q"
  by (subst Factor.simps) simp

lemma Term_Throw_Primary: "Primary tokens position = Throw q \<Longrightarrow> Term tokens position = Throw q"
  by (simp add: Term_Throw_Factor Factor_Throw_Primary)

lemma Factor_loop_operator_Throw:
  assumes "next_type tokens position = Some MUL \<or> next_type tokens position = Some DIV"
    and "Primary tokens (position + 1) = Throw q"
  shows "Factor_loop tokens expr position = Throw q"
  using assms by (auto simp: Factor_loop_MUL Factor_loop_DIV)

lemma Term_loop_operator_Throw:
  assumes "next_type tokens position = Some ADD \<or> next_type tokens position = Some SUB"
    and "Factor tokens (position + 1) = Throw q"
  shows "Term_loop tokens expr position = Throw q"
  using assms by (auto simp: Term_loop_ADD Term_loop_SUB)

lemma factor_then_operator:
  assumes "derives_factor ts e"
    and "next_type post 0 = Some MUL \<or> next_type post 0 = Some DIV"
    and "Primary (pre @ ts @ post) (length pre + length ts + 1) = Throw q"
  shows "Factor (pre @ ts @ post) (length pre) = Throw q"
proof -
  have "next_type (pre @ ts @ post) (length pre + length ts) = next_type post 0"
    using next_type_shift [of "pre @ ts" post 0] by simp
  with assms(2,3) have "Factor_loop (pre @ ts @ post) e (length pre + length ts) = Throw q"
    by (intro Factor_loop_operator_Throw) simp_all
  with derivation_parse(2) [OF assms(1)] show ?thesis by simp
qed

lemma term_then_operator:
  assumes "derives_term ts e"
    and "next_type post 0 = Some op" "is_operator op"
    and "Primary (pre @ ts @ post) (length pre + length ts + 1) = Throw q"
  shows "Term (pre @ ts @ post) (length pre) = Throw q"
proof (cases "op = ADD \<or> op = SUB")
  case True
  have nt: "next_type (pre @ ts @ post) (length pre + length ts) = Some op"
    using next_type_shift [of "pre @ ts" post 0] assms(2) by simp
  from True assms(2) have "next_type post 0 \<noteq> Some MUL" "next_type post 0 \<noteq> Some DIV"
    by auto
  from derivation_parse(3) [OF assms(1) this]
  have "Term (pre @ ts @ post) (length pre) = Term_loop (pre @ ts @ post) e (length pre + length ts)" .
  also have "\<dots> = Throw q"
    using True nt assms(4) by (intro Term_loop_operator_Throw) (auto simp: Factor_Throw_Primary)
  finally show ?thesis .
next
  case False
  with assms(2,3) have md: "next_type post 0 = Some MUL \<or> next_type post 0 = Some DIV"
    by (auto simp: is_operator_def)
  from assms(1) show ?thesis
  proof (cases rule: derives_term.cases)
    case factor
    from factor_then_operator [OF factor md assms(4)] show ?thesis
      by (rule Term_Throw_Factor)
  next
    case (add ts1 e1 ts2 e2)
    let ?all = "pre @ ts1 @ Token_type ADD # ts2 @ post"
    have all: "pre @ ts @ post = ?all" using add(1) by simp
    have op: "next_type ?all (length pre + length ts1) = Some ADD"
      using next_type_shift [of "pre @ ts1" "Token_type ADD # ts2 @ post" 0]
      by (simp add: next_type_Cons_0)
    have "Term ?all (length pre) = Term_loop ?all e1 (length pre + length ts1)"
      using derivation_parse(3) [OF add(3), of "Token_type ADD # ts2 @ post" pre]
      by (simp add: next_type_Cons_0)
    also have "\<dots> = Throw q"
    proof (rule Term_loop_operator_Throw)
      show "next_type ?all (length pre + length ts1) = Some ADD
          \<or> next_type ?all (length pre + length ts1) = Some SUB" using op by simp
      show "Factor ?all (length pre + length ts1 + 1) = Throw q"
        using factor_then_operator [OF add(4) md, of "pre @ ts1 @ [Token_type ADD]" q] assms(4) add(1)
        by (simp add: add.assoc)
    qed
    finally show ?thesis unfolding all .
  next
    case (sub ts1 e1 ts2 e2)
    let ?all = "pre @ ts1 @ Token_type SUB # ts2 @ post"
    have all: "pre @ ts @ post = ?all" using sub(1) by simp
    have op: "next_type ?all (length pre + length ts1) = Some SUB"
      using next_type_shift [of "pre @ ts1" "Token_type SUB # ts2 @ post" 0]
      by (simp add: next_type_Cons_0)
    have "Term ?all (length pre) = Term_loop ?all e1 (length pre + length ts1)"
      using derivation_parse(3) [OF sub(3), of "Token_type SUB # ts2 @ post" pre]
      by (simp add: next_type_Cons_0)
    also have "\<dots> = Throw q"
    proof (rule Term_loop_operator_Throw)
      show "next_type ?all (length pre + length ts1) = Some ADD
          \<or> next_type ?all (length pre + length ts1) = Some SUB" using op by simp
      show "Factor ?all (length pre + length ts1 + 1) = Throw q"
        using factor_then_operator [OF sub(4) md, of "pre @ ts1 @ [Token_type SUB]" q] assms(4) sub(1)
        by (simp add: add.assoc)
    qed
    finally show ?thesis unfolding all .
  qed
qed

lemma expects_primary_Throw:
  "expects_primary ts \<Longrightarrow> Primary (pre @ ts @ post) (length pre + length ts) = Throw q
   \<Longrightarrow> Term (pre @ ts @ post) (length pre) = Throw q"
proof (induction arbitrary: pre post rule: expects_primary.induct)
  case nothing
  then show ?case by (simp add: Term_Throw_Primary)
next
  case (after_operator ts e op)
  from term_then_operator [OF after_operator(1), of "Token_type op # post" op pre q]
    after_operator(2,3)
  show ?case by (simp add: next_type_Cons_0)
next
  case (after_paren outer inner)
  let ?all = "pre @ outer @ Token_type LEFT_PAREN # inner @ post"
  have "Term ?all (length pre + length outer + 1) = Throw q"
    using after_paren.IH(2) [of "pre @ outer @ [Token_type LEFT_PAREN]" post] after_paren.prems
    by (simp add: add.assoc)
  moreover have "next_type ?all (length pre + length outer) = Some LEFT_PAREN"
    using next_type_shift [of "pre @ outer" "Token_type LEFT_PAREN # inner @ post" 0]
    by (simp add: next_type_Cons_0)
  ultimately have "Primary ?all (length pre + length outer) = Throw q"
    by (simp add: Primary_paren)
  with after_paren.IH(1) [of pre "Token_type LEFT_PAREN # inner @ post"] show ?case
    by simp
qed

lemma Primary_at_end: "Primary tokens (length tokens) = Throw (length tokens)"
  by (simp add: Primary_throw next_type_end)

lemma Term_expects_primary: "expects_primary ts \<Longrightarrow> Term ts 0 = Throw (length ts)"
  using expects_primary_Throw [of ts "[]" "[]" "length ts"] Primary_at_end [of ts] by simp

lemma Parse_derivation:
  "derives_term tokens expr \<Longrightarrow> Parse tokens token_positions source = Inr (Error NO_ERROR 0, Some expr)"
  by (simp add: Parse_def Term_derivation)

lemma chain_tokens_snoc:
  "chain_tokens first (rest @ [(op, ts, e)]) = chain_tokens first rest @ Token_type op # ts"
  by (simp add: chain_tokens_def)

lemma left_chain_snoc: "left_chain e0 (rest @ [(op, ts, e)]) = binary op (left_chain e0 rest) e"
  by (simp add: left_chain_def)

lemma term_chain:
  assumes "derives_factor first e0"
    and "\<forall>(op, ts, e) \<in> set rest. (op = ADD \<or> op = SUB) \<and> derives_factor ts e"
  shows "derives_term (chain_tokens first rest) (left_chain e0 rest)"
  using assms(2)
proof (induction rest rule: rev_induct)
  case Nil
  from assms(1) show ?case by (simp add: chain_tokens_def left_chain_def factor)
next
  case (snoc x rest)
  obtain op ts e where x: "x = (op, ts, e)" by (cases x)
  from snoc.prems x have op: "op = ADD \<or> op = SUB" and ts: "derives_factor ts e" by auto
  from snoc have ih: "derives_term (chain_tokens first rest) (left_chain e0 rest)" by simp
  from op show ?case
  proof
    assume "op = ADD"
    with add [OF ih ts] x show ?thesis by (simp add: chain_tokens_snoc left_chain_snoc)
  next
    assume "op = SUB"
    with sub [OF ih ts] x show ?thesis by (simp add: chain_tokens_snoc left_chain_snoc)
  qed
qed

lemma factor_chain:
  assumes "derives_primary first e0"
    and "\<forall>(op, ts, e) \<in> set rest. (op = MUL \<or> op = DIV) \<and> derives_primary ts e"
  shows "derives_factor (chain_tokens first rest) (left_chain e0 rest)"
  using assms(2)
proof (induction rest rule: rev_induct)
  case Nil
  from assms(1) show ?case by (simp add: chain_tokens_def left_chain_def primary)
next
  case (snoc x rest)
  obtain op ts e where x: "x = (op, ts, e)" by (cases x)
  from snoc.prems x have op: "op = MUL \<or> op = DIV" and ts: "derives_primary ts e" by auto
  from snoc have ih: "derives_factor (chain_tokens first rest) (left_chain e0 rest)" by simp
  from op show ?case
  proof
    assume "op = MUL"
    with mul [OF ih ts] x show ?thesis by (simp add: chain_tokens_snoc left_chain_snoc)
  next
    assume "op = DIV"
    with div [OF ih ts] x show ?thesis by (simp add: chain_tokens_snoc left_chain_snoc)
  qed
qed

lemma Evaluate_binary: "Evaluate (binary op lhs rhs) = float_op op (Evaluate lhs) (Evaluate rhs)"
  by (cases op) simp_all

lemma Evaluate_left_chain: "Evaluate (left_chain e0 rest) = left_to_right (Evaluate e0) rest"
proof (induction rest rule: rev_induct)
  case Nil
  show ?case by (simp add: left_chain_def left_to_right_def)
next
  case (snoc x rest)
  obtain op ts e where x: "x = (op, ts, e)" by (cases x)
  with snoc show ?case
    by (simp add: left_chain_snoc Evaluate_binary) (simp add: left_to_right_def)
qed

lemma Parse_Throw_at_end:
  "Term tokens 0 = Throw (length tokens)
   \<Longrightarrow> Parse tokens token_positions source = Inr (Error END_OF_STREAM (length source), None)"
  by (simp add: Parse_def IsAtEnd_def)

lemma Term_returns_in_bounds: "Term tokens 0 = Return expr position \<Longrightarrow> position \<le> length tokens"
  using parser_stays_inside(1) [of 0 tokens] by (simp add: stays_inside_def)

lemma Parse_leftover:
  assumes "Term tokens 0 = Return expr position" "position \<noteq> length tokens"
    "length token_positions = length tokens"
  shows "Parse tokens token_positions source
    = Inr (Error INVALID_TOKEN (token_positions ! position), Some expr)"
proof -
  from Term_returns_in_bounds [OF assms(1)] assms(2,3) have "position < length token_positions"
    by simp
  with assms(1,2) show ?thesis by (simp add: Parse_def index_read_def)
qed

lemma Parse_NO_ERROR:
  assumes "Parse tokens token_positions source = Inr (Error NO_ERROR l, ast)"
  shows "l = 0 \<and> (\<exists>expr. ast = Some expr \<and> Term tokens 0 = Return expr (length tokens))"
  using assms
  by (auto simp: Parse_def split: outcome.splits if_splits sum.splits)

lemma Term_leftover:
  assumes "derives_term ts e" "rest \<noteq> []" "\<not> is_operator (token_type (hd rest))"
  shows "Term (ts @ rest) 0 = Return e (length ts)"
proof -
  from assms(2) obtain t rest' where rest: "rest = t # rest'" by (cases rest) auto
  with assms(3) have nt: "next_type rest 0 = Some (token_type t)" "\<not> is_operator (token_type t)"
    by (simp_all add: next_type_Cons_0)
  then have "next_type rest 0 \<noteq> Some MUL" "next_type rest 0 \<noteq> Some DIV"
    by (auto simp: is_operator_def)
  from derivation_parse(3) [OF assms(1) this, of "[]"]
  have "Term (ts @ rest) 0 = Term_loop (ts @ rest) e (length ts)" by simp
  also have "\<dots> = Return e (length ts)"
  proof (rule Term_loop_stop)
    show "length ts \<le> length (ts @ rest)" by simp
    have "next_type (ts @ rest) (length ts) = Some (token_type t)"
      using next_type_shift [of ts rest 0] nt(1) by simp
    with nt(2) show "next_type (ts @ rest) (length ts) \<noteq> Some ADD"
      "next_type (ts @ rest) (length ts) \<noteq> Some SUB"
      by (auto simp: is_operator_def)
  qed
  finally show ?thesis .
qed

lemma Consume_at_end:
  "Consume tokens (length tokens) type = Undefined (OutOfBoundsRead (length tokens))"
  by (simp add: Consume_def index_read_def)

text \<open>
  An opening parenthesis followed by a complete term and nothing else: the nested \<open>Term\<close>
  returns at the size of the array, and \<open>Consume\<close> reads the element there.
\<close>

lemma unclosed_parenthesis:
  assumes "derives_term ts e"
  shows "Parse (Token_type LEFT_PAREN # ts) token_positions source
           = Inl (OutOfBoundsRead (Suc (length ts)))"
proof -
  let ?tokens = "Token_type LEFT_PAREN # ts"
  have t: "Term ?tokens 1 = Term_loop ?tokens e (Suc (length ts))"
    using derivation_parse(3) [OF assms, of "[]" "[Token_type LEFT_PAREN]"]
    by (simp add: next_type_Nil)
  have "next_type ?tokens (Suc (length ts)) = None"
    by (simp add: next_type_def)
  then have l: "Term_loop ?tokens e (Suc (length ts)) = Return e (Suc (length ts))"
    using Term_loop_stop [of "Suc (length ts)" ?tokens e] by simp
  have c: "Consume ?tokens (Suc (length ts)) RIGHT_PAREN = Undefined (OutOfBoundsRead (Suc (length ts)))"
    using Consume_at_end [of ?tokens RIGHT_PAREN] by simp
  have n: "next_type ?tokens 0 = Some LEFT_PAREN"
    by (simp add: next_type_def)
  have p: "Primary ?tokens 0 = Undefined (OutOfBoundsRead (Suc (length ts)))"
    using Primary_paren [OF n] t l c by simp
  have f: "Factor ?tokens 0 = Undefined (OutOfBoundsRead (Suc (length ts)))"
    using p by (subst Factor.simps) simp
  have "Term ?tokens 0 = Undefined (OutOfBoundsRead (Suc (length ts)))"
    using f by (subst Term.simps) simp
  then show ?thesis by (simp add: Parse_def)
qed

section \<open>Properties of the lexer\<close>

lemma source_at_nth: "position < length source \<Longrightarrow> source_at source position = source ! position"
  by (simp add: source_at_def)

lemma operator_not_digit: "operator_token ch = Some t \<Longrightarrow> \<not> IsDigit ch"
  by (auto simp: operator_token_def IsDigit_def split: if_splits)

lemma whitespace_not_digit: "IsWhiteSpace ch \<Longrightarrow> \<not> IsDigit ch"
  by (auto simp: IsWhiteSpace_def IsDigit_def)

lemma whitespace_not_operator: "IsWhiteSpace ch \<Longrightarrow> operator_token ch = None"
  by (auto simp: IsWhiteSpace_def operator_token_def)

lemma whitespace_starts_no_token: "IsWhiteSpace ch \<Longrightarrow> \<not> starts_token ch"
  by (simp add: starts_token_def whitespace_not_digit whitespace_not_operator)

lemma GetLiteral_no_digit:
  "\<not> IsDigit (source_at source position)
   \<Longrightarrow> GetLiteral erange source position = Inr ((Finite 0, False), position)"
  by (simp add: GetLiteral_def)

lemma GetLiteral_digit:
  "IsDigit (source_at source position)
   \<Longrightarrow> GetLiteral erange source position =
      (case stof erange (take (literal_loop source position False - position) (drop position source)) of
         Inl ex \<Rightarrow> Inl ex
       | Inr v \<Rightarrow> Inr ((v, True), literal_loop source position False))"
  by (simp add: GetLiteral_def Let_def)

lemma Scan_loop_end:
  "\<not> position < length source
   \<Longrightarrow> Scan_loop erange source position tokens token_positions
      = Inr (Error NO_ERROR 0, tokens, token_positions)"
  by (subst Scan_loop.simps) simp

lemma Scan_loop_space:
  "position < length source \<Longrightarrow> IsWhiteSpace (source ! position)
   \<Longrightarrow> Scan_loop erange source position tokens token_positions
      = Scan_loop erange source (position + 1) tokens token_positions"
  by (subst Scan_loop.simps) (simp add: source_at_nth)

lemma Scan_loop_operator:
  "position < length source \<Longrightarrow> operator_token (source ! position) = Some t
   \<Longrightarrow> Scan_loop erange source position tokens token_positions
      = Scan_loop erange source (position + 1) (tokens @ [Token_type t]) (token_positions @ [position])"
  using whitespace_not_operator [of "source ! position"]
  by (subst Scan_loop.simps) (auto simp: source_at_nth operator_token_def split: if_splits)

lemma Scan_loop_digit:
  assumes "position < length source" "IsDigit (source ! position)"
  shows "Scan_loop erange source position tokens token_positions =
      (case stof erange (take (literal_loop source position False - position) (drop position source)) of
         Inl ex \<Rightarrow> Inl ex
       | Inr v \<Rightarrow> Scan_loop erange source (literal_loop source position False)
                   (tokens @ [Token_value v]) (token_positions @ [position]))"
proof -
  from assms have d: "IsDigit (source_at source position)" by (simp add: source_at_nth)
  then have "\<not> IsWhiteSpace (source_at source position)"
    "operator_token (source_at source position) = None"
    using whitespace_not_digit operator_not_digit by (blast, fastforce)
  then have no: "\<not> IsWhiteSpace (source_at source position)"
    "source_at source position \<noteq> CHR ''+''" "source_at source position \<noteq> CHR ''-''"
    "source_at source position \<noteq> CHR ''*''" "source_at source position \<noteq> CHR ''/''"
    "source_at source position \<noteq> CHR ''(''" "source_at source position \<noteq> CHR '')''"
    by (auto simp: operator_token_def split: if_splits)
  show ?thesis
    by (subst Scan_loop.simps) (simp add: assms(1) no GetLiteral_digit [OF d] split: sum.split)
qed

lemma Scan_loop_invalid:
  assumes "position < length source" "\<not> IsWhiteSpace (source ! position)"
    "\<not> starts_token (source ! position)"
  shows "Scan_loop erange source position tokens token_positions
    = Inr (Error INVALID_CHAR position, tokens, token_positions @ [position])"
  using assms
  by (subst Scan_loop.simps)
     (auto simp: source_at_nth starts_token_def GetLiteral_no_digit operator_token_def
           split: if_splits)

text \<open>An induction rule that follows the five ways one round of the loop can go.\<close>

lemma Scan_loop_cases_induct [case_names finished space operator literal uncaught invalid]:
  assumes finished: "\<And>erange source position tokens token_positions.
      \<not> position < length source \<Longrightarrow> P erange source position tokens token_positions"
    and space: "\<And>erange source position tokens token_positions.
      position < length source \<Longrightarrow> IsWhiteSpace (source ! position)
      \<Longrightarrow> P erange source (position + 1) tokens token_positions
      \<Longrightarrow> P erange source position tokens token_positions"
    and operator: "\<And>erange source position tokens token_positions t.
      position < length source \<Longrightarrow> operator_token (source ! position) = Some t
      \<Longrightarrow> P erange source (position + 1) (tokens @ [Token_type t]) (token_positions @ [position])
      \<Longrightarrow> P erange source position tokens token_positions"
    and literal: "\<And>erange source position tokens token_positions v.
      position < length source \<Longrightarrow> IsDigit (source ! position)
      \<Longrightarrow> stof erange (take (literal_loop source position False - position) (drop position source)) = Inr v
      \<Longrightarrow> P erange source (literal_loop source position False) (tokens @ [Token_value v])
            (token_positions @ [position])
      \<Longrightarrow> P erange source position tokens token_positions"
    and uncaught: "\<And>erange source position tokens token_positions ex.
      position < length source \<Longrightarrow> IsDigit (source ! position)
      \<Longrightarrow> stof erange (take (literal_loop source position False - position) (drop position source)) = Inl ex
      \<Longrightarrow> P erange source position tokens token_positions"
    and invalid: "\<And>erange source position tokens token_positions.
      position < length source \<Longrightarrow> \<not> IsWhiteSpace (source ! position)
      \<Longrightarrow> \<not> starts_token (source ! position)
      \<Longrightarrow> P erange source position tokens token_positions"
  shows "P erange source position tokens token_positions"
proof (induction erange source position tokens token_positions rule: Scan_loop.induct)
  case (1 erange source position tokens token_positions)
  let ?c = "source_at source position"
  show ?case
  proof (cases "position < length source")
    case False
    then show ?thesis by (rule finished)
  next
    case lt: True
    then have c: "?c = source ! position" by (simp add: source_at_nth)
    show ?thesis
    proof (cases "IsWhiteSpace ?c")
      case True
      from space [OF lt True [unfolded c] "1.IH"(1) [OF lt True]] show ?thesis .
    next
      case ws: False
      show ?thesis
      proof (cases "operator_token ?c")
        case (Some t)
        have "P erange source (position + 1) (tokens @ [Token_type t]) (token_positions @ [position])"
          using "1.IH"(2-7) [OF lt ws] Some
          by (auto simp: operator_token_def split: if_splits)
        from operator [OF lt Some [unfolded c] this] show ?thesis .
      next
        case None
        then have no: "?c \<noteq> CHR ''+''" "?c \<noteq> CHR ''-''" "?c \<noteq> CHR ''*''" "?c \<noteq> CHR ''/''"
          "?c \<noteq> CHR ''(''" "?c \<noteq> CHR '')''"
          by (auto simp: operator_token_def split: if_splits)
        show ?thesis
        proof (cases "IsDigit ?c")
          case False
          with None ws c show ?thesis
            by (intro invalid [OF lt]) (simp_all add: starts_token_def)
        next
          case True
          let ?w = "take (literal_loop source position False - position) (drop position source)"
          show ?thesis
          proof (cases "stof erange ?w")
            case (Inl ex)
            from uncaught [OF lt True [unfolded c] Inl] show ?thesis .
          next
            case (Inr v)
            have g: "GetLiteral erange source position
                = Inr ((v, True), literal_loop source position False)"
              by (simp add: GetLiteral_digit [OF True] Inr)
            from "1.IH"(8) [OF lt ws no g refl refl]
            have "P erange source (literal_loop source position False) (tokens @ [Token_value v])
                (token_positions @ [position])" by simp
            from literal [OF lt True [unfolded c] Inr this] show ?thesis .
          qed
        qed
      qed
    qed
  qed
qed

lemma Scan_loop_error:
  "Scan_loop erange source position tokens token_positions = Inr (error, tokens', token_positions')
   \<Longrightarrow> is_error error
   \<Longrightarrow> error_type error = INVALID_CHAR \<and> position \<le> location error
      \<and> location error < length source
      \<and> \<not> IsWhiteSpace (source ! location error) \<and> \<not> starts_token (source ! location error)"
proof (induction erange source position tokens token_positions rule: Scan_loop_cases_induct)
  case (finished erange source position tokens token_positions)
  then show ?case by (auto simp: Scan_loop_end is_error_def)
next
  case (space erange source position tokens token_positions)
  then show ?case by (auto simp: Scan_loop_space)
next
  case (operator erange source position tokens token_positions t)
  then show ?case by (auto simp: Scan_loop_operator)
next
  case (literal erange source position tokens token_positions v)
  from literal(2) literal(1) have "position < literal_loop source position False"
    by (intro literal_loop_digit) (simp add: source_at_nth)
  with literal show ?case by (auto simp: Scan_loop_digit)
next
  case (uncaught erange source position tokens token_positions ex)
  then show ?case by (simp add: Scan_loop_digit)
next
  case (invalid erange source position tokens token_positions)
  then show ?case by (auto simp: Scan_loop_invalid)
qed

lemma Scan_loop_lengths:
  "Scan_loop erange source position tokens token_positions = Inr (error, tokens', token_positions')
   \<Longrightarrow> length token_positions = length tokens
   \<Longrightarrow> length token_positions' = (if is_error error then Suc (length tokens') else length tokens')"
proof (induction erange source position tokens token_positions rule: Scan_loop_cases_induct)
  case (finished erange source position tokens token_positions)
  then show ?case by (auto simp: Scan_loop_end is_error_def)
next
  case (space erange source position tokens token_positions)
  then show ?case by (auto simp: Scan_loop_space)
next
  case (operator erange source position tokens token_positions t)
  then show ?case by (auto simp: Scan_loop_operator)
next
  case (literal erange source position tokens token_positions v)
  then show ?case by (auto simp: Scan_loop_digit)
next
  case (uncaught erange source position tokens token_positions ex)
  then show ?case by (simp add: Scan_loop_digit)
next
  case (invalid erange source position tokens token_positions)
  then show ?case by (auto simp: Scan_loop_invalid is_error_def)
qed

text \<open>Every token the loop adds has a property that every value of stof has.\<close>

lemma Scan_loop_tokens:
  assumes stof: "\<And>erange w v. stof erange w = Inr v \<Longrightarrow> Q (Token_value v)"
    and op: "\<And>t. t \<noteq> LITERAL \<Longrightarrow> Q (Token_type t)"
  shows "Scan_loop erange source position tokens token_positions = Inr (error, tokens', token_positions')
   \<Longrightarrow> \<forall>t \<in> set tokens. Q t \<Longrightarrow> \<forall>t \<in> set tokens'. Q t"
proof (induction erange source position tokens token_positions rule: Scan_loop_cases_induct)
  case (finished erange source position tokens token_positions)
  then show ?case by (auto simp: Scan_loop_end)
next
  case (space erange source position tokens token_positions)
  then show ?case by (auto simp: Scan_loop_space)
next
  case (operator erange source position tokens token_positions t)
  from operator(2) have "t \<noteq> LITERAL" by (auto simp: operator_token_def split: if_splits)
  with operator op show ?case by (auto simp: Scan_loop_operator)
next
  case (literal erange source position tokens token_positions v)
  from stof [OF literal(3)] literal show ?case by (auto simp: Scan_loop_digit)
next
  case (uncaught erange source position tokens token_positions ex)
  then show ?case by (simp add: Scan_loop_digit)
next
  case (invalid erange source position tokens token_positions)
  then show ?case by (auto simp: Scan_loop_invalid)
qed

lemma digit_value_nonneg: "IsDigit ch \<Longrightarrow> 0 \<le> digit_value ch"
proof -
  assume "IsDigit ch"
  then have "(48::nat) \<le> of_char ch" by (simp add: IsDigit_def)
  then have "int 48 \<le> int (of_char ch)" by (simp only: of_nat_le_iff)
  then show ?thesis by (simp add: digit_value_def of_nat_of_char)
qed

lemma decimal_digits_nonneg: "\<forall>ch \<in> set ds. IsDigit ch \<Longrightarrow> 0 \<le> decimal_digits ds"
proof -
  have "\<forall>ch \<in> set ds. IsDigit ch \<Longrightarrow> 0 \<le> n
      \<Longrightarrow> 0 \<le> foldl (\<lambda>n ch. 10 * n + digit_value ch) n ds" for n
    by (induction ds arbitrary: n) (auto simp: digit_value_nonneg)
  then show "\<forall>ch \<in> set ds. IsDigit ch \<Longrightarrow> 0 \<le> decimal_digits ds"
    by (simp add: decimal_digits_def)
qed

lemma fraction_digits_digits: "\<forall>ch \<in> set (fraction_digits s). IsDigit ch"
  by (auto simp: fraction_digits_def split: list.splits dest: set_takeWhileD)

lemma decimal_value_nonneg: "0 \<le> decimal_value s"
proof -
  have "0 \<le> decimal_digits (takeWhile IsDigit s)"
    by (rule decimal_digits_nonneg) (auto dest: set_takeWhileD)
  moreover have "0 \<le> decimal_digits (fraction_digits (dropWhile IsDigit s))"
    by (rule decimal_digits_nonneg) (rule fraction_digits_digits)
  ultimately show ?thesis by (simp add: decimal_value_def Let_def)
qed

lemma stof_value:
  assumes "stof erange w = Inr v"
  shows "v = round_float (decimal_value w) \<and> v \<noteq> PosInf"
  using assms by (auto simp: stof_def Let_def split: if_splits)

lemma stof_nonneg:
  assumes "stof erange w = Inr v"
  shows "\<exists>q. v = Finite q \<and> 0 \<le> q"
  using stof_value [OF assms] round_to_format_nonneg [OF decimal_value_nonneg, of 24 127 w]
  by (auto simp: round_float_def)

lemma stof_is_binary32: "stof erange w = Inr v \<Longrightarrow> is_binary32 v"
  using stof_value [of erange w v] by (simp add: is_binary32_round_float)

lemma source_at_drop:
  "source_at source position = (case drop position source of [] \<Rightarrow> CHR 0x00 | ch # r \<Rightarrow> ch)"
  by (auto simp: source_at_def Cons_nth_drop_Suc [symmetric] split: list.splits)

lemma point_not_digit: "\<not> IsDigit (CHR ''.'')"
  by (simp add: IsDigit_def)

lemma literal_loop_True:
  "h \<Longrightarrow> literal_loop source position h = position + length (takeWhile IsDigit (drop position source))"
proof (induction source position h rule: literal_loop.induct)
  case (1 source position h)
  show ?case
  proof (cases "IsDigit (source_at source position)")
    case True
    then have lt: "position < length source" by (rule IsDigit_in_source)
    then have d: "drop position source = source ! position # drop (position + 1) source"
      by (simp add: Cons_nth_drop_Suc)
    from True lt have "IsDigit (source ! position)" by (simp add: source_at_def)
    with "1.IH" True "1.prems" d show ?thesis
      by (subst literal_loop.simps) simp
  next
    case False
    then have "takeWhile IsDigit (drop position source) = []"
      by (auto simp: source_at_drop split: list.splits)
    with False "1.prems" show ?thesis
      by (subst literal_loop.simps) simp
  qed
qed

lemma literal_loop_False:
  "\<not> h \<Longrightarrow> literal_loop source position h =
     (let q = position + length (takeWhile IsDigit (drop position source))
      in if source_at source q = CHR ''.''
         then q + 1 + length (takeWhile IsDigit (drop (q + 1) source)) else q)"
proof (induction source position h rule: literal_loop.induct)
  case (1 source position h)
  show ?case
  proof (cases "IsDigit (source_at source position)")
    case True
    then have lt: "position < length source" by (rule IsDigit_in_source)
    then have d: "drop position source = source ! position # drop (position + 1) source"
      by (simp add: Cons_nth_drop_Suc)
    from True lt have dig: "IsDigit (source ! position)" by (simp add: source_at_def)
    from True have np: "source_at source position \<noteq> CHR ''.''"
      using point_not_digit by auto
    from "1.IH" True np "1.prems" d dig show ?thesis
      by (subst literal_loop.simps) (simp add: Let_def)
  next
    case False
    then have t: "takeWhile IsDigit (drop position source) = []"
      by (auto simp: source_at_drop split: list.splits)
    show ?thesis
    proof (cases "source_at source position = CHR ''.''")
      case True
      with False "1.prems" t show ?thesis
        by (subst literal_loop.simps) (simp add: literal_loop_True)
    next
      case np: False
      with False "1.prems" t show ?thesis
        by (subst literal_loop.simps) simp
    qed
  qed
qed

lemma literal_loop_le: "position \<le> length source \<Longrightarrow> literal_loop source position h \<le> length source"
proof (induction source position h rule: literal_loop.induct)
  case (1 source position h)
  show ?case
  proof (cases "IsDigit (source_at source position)
      \<or> (\<not> h \<and> source_at source position = CHR ''.'')")
    case True
    then have "position < length source"
      using IsDigit_in_source point_in_source by blast
    with "1.IH" True show ?thesis
      by (subst literal_loop.simps) simp
  next
    case False
    with "1.prems" show ?thesis
      by (subst literal_loop.simps) auto
  qed
qed

text \<open>The literal that starts a list of characters: its length.\<close>

lemma drop_takeWhile: "drop (length (takeWhile P xs)) xs = dropWhile P xs"
  by (induction xs) auto

lemma literal_loop_munch:
  "literal_loop source position False = position + munch (drop position source)"
proof -
  define t where "t = drop position source"
  define ds where "ds = takeWhile IsDigit t"
  define r where "r = dropWhile IsDigit t"
  let ?q = "position + length ds"
  have d: "drop ?q source = r"
    using drop_takeWhile [of IsDigit t] by (simp add: add.commute t_def ds_def r_def)
  have l: "literal_loop source position False =
      (if source_at source ?q = CHR ''.''
       then ?q + 1 + length (takeWhile IsDigit (drop (?q + 1) source)) else ?q)"
    by (simp add: literal_loop_False Let_def ds_def t_def)
  have m: "munch t = (case r of [] \<Rightarrow> length ds
      | ch # r' \<Rightarrow> if ch = CHR ''.'' then length ds + 1 + length (takeWhile IsDigit r')
          else length ds)"
    by (simp only: munch_def ds_def r_def)
  show ?thesis
  proof (cases r)
    case Nil
    with d have "source_at source ?q = CHR 0x00" by (simp add: source_at_drop)
    with l m Nil show ?thesis by (simp add: t_def)
  next
    case (Cons ch r')
    have "drop (?q + 1) source = drop 1 (drop ?q source)" by (simp add: add.commute)
    with d Cons have d1: "drop (?q + 1) source = r'" by simp
    from d Cons have "source_at source ?q = ch" by (simp add: source_at_drop)
    with l m Cons d1 show ?thesis by (simp add: t_def)
  qed
qed

lemma dropWhile_Cons_not: "dropWhile P xs = y # ys \<Longrightarrow> \<not> P y"
  by (induction xs) (auto split: if_splits)

lemma takeWhile_append_stop:
  "\<forall>x \<in> set xs. P x \<Longrightarrow> \<not> P y \<Longrightarrow> takeWhile P (xs @ y # ys) = xs"
  by (induction xs) auto

lemma dropWhile_append_stop:
  "\<forall>x \<in> set xs. P x \<Longrightarrow> \<not> P y \<Longrightarrow> dropWhile P (xs @ y # ys) = y # ys"
  by (induction xs) auto

lemma matches_digits:
  assumes "ds \<noteq> []" "\<forall>ch \<in> set ds. IsDigit ch"
  shows "matches_literal ds"
proof -
  from assms(2) have tw: "takeWhile IsDigit ds = ds" and dw: "dropWhile IsDigit ds = []"
    by simp_all
  show ?thesis unfolding matches_literal_def tw dw using assms(1) by simp
qed

lemma matches_digits_point:
  assumes "ds \<noteq> []" "\<forall>ch \<in> set ds. IsDigit ch"
  shows "matches_literal (ds @ CHR ''.'' # xs) = list_all IsDigit xs"
  using assms
  by (simp add: matches_literal_def takeWhile_append_stop [OF assms(2) point_not_digit]
      dropWhile_append_stop [OF assms(2) point_not_digit])

lemma matches_digits_other:
  assumes "\<forall>ch \<in> set ds. IsDigit ch" "\<not> IsDigit c" "c \<noteq> CHR ''.''"
  shows "\<not> matches_literal (ds @ c # xs)"
  using assms
  by (simp add: matches_literal_def dropWhile_append_stop [OF assms(1,2)])

lemma no_point_in_digits:
  "\<forall>ch \<in> set xs. IsDigit ch \<Longrightarrow> filter (\<lambda>ch. ch = CHR ''.'') xs = []"
  using point_not_digit by (induction xs) auto

lemma munch_matches:
  assumes "t \<noteq> []" "IsDigit (hd t)"
  shows "matches_literal (take (munch t) t)
      \<and> length (filter (\<lambda>ch. ch = CHR ''.'') (take (munch t) t)) \<le> 1
      \<and> munch t \<le> length t \<and> 0 < munch t
      \<and> (\<forall>n. munch t < n \<and> n \<le> length t \<longrightarrow> \<not> matches_literal (take n t))"
proof -
  define ds where "ds = takeWhile IsDigit t"
  define r where "r = dropWhile IsDigit t"
  have t: "t = ds @ r" by (simp add: ds_def r_def)
  have ds: "\<forall>ch \<in> set ds. IsDigit ch" by (auto simp: ds_def dest: set_takeWhileD)
  from assms have ne: "ds \<noteq> []" by (cases t) (auto simp: ds_def)
  have m: "munch t = (case r of [] \<Rightarrow> length ds
      | ch # r' \<Rightarrow> if ch = CHR ''.'' then length ds + 1 + length (takeWhile IsDigit r')
          else length ds)"
    by (simp only: munch_def ds_def r_def)
  show ?thesis
  proof (cases r)
    case Nil
    with t m have "t = ds" "munch t = length ds" by simp_all
    with matches_digits [OF ne ds] no_point_in_digits [OF ds] ne show ?thesis by simp
  next
    case (Cons ch r')
    then have chnd: "\<not> IsDigit ch" using dropWhile_Cons_not [of IsDigit t ch r'] by (simp add: r_def)
    show ?thesis
    proof (cases "ch = CHR ''.''")
      case False
      from m Cons False have m': "munch t = length ds" by simp
      have c: "\<not> matches_literal (take n t)" if "munch t < n" for n
      proof -
        from that m' obtain k where k: "n - length ds = Suc k" by (cases "n - length ds") auto
        then have n: "n = length ds + Suc k" by simp
        have "take n t = ds @ ch # take k r'"
          unfolding n by (subst t) (simp add: Cons)
        with matches_digits_other [OF ds chnd False] show ?thesis by simp
      qed
      have "take (munch t) t = take (length ds) t" by (simp only: m')
      also have "\<dots> = ds" by (subst t) simp
      finally have "take (munch t) t = ds" .
      with matches_digits [OF ne ds] no_point_in_digits [OF ds] ne c m' t show ?thesis by simp
    next
      case True
      define fs where "fs = takeWhile IsDigit r'"
      define r2 where "r2 = dropWhile IsDigit r'"
      have fs: "\<forall>ch \<in> set fs. IsDigit ch" by (auto simp: fs_def dest: set_takeWhileD)
      have t2: "t = ds @ CHR ''.'' # fs @ r2"
        using t Cons True by (simp add: fs_def r2_def)
      from m Cons True have m': "munch t = length ds + 1 + length fs" by (simp add: fs_def)
      have "take (munch t) t = take (length ds + 1 + length fs) t" by (simp only: m')
      also have "\<dots> = ds @ CHR ''.'' # fs" by (subst t2) simp
      finally have tk: "take (munch t) t = ds @ CHR ''.'' # fs" .
      have a: "matches_literal (ds @ CHR ''.'' # fs)"
        using fs by (simp add: matches_digits_point [OF ne ds] list_all_iff)
      have b: "length (filter (\<lambda>ch. ch = CHR ''.'') (ds @ CHR ''.'' # fs)) \<le> 1"
        by (simp add: no_point_in_digits [OF ds] no_point_in_digits [OF fs])
      have le: "munch t \<le> length t" unfolding m' by (subst t2) simp
      have c: "\<not> matches_literal (take n t)" if "munch t < n" "n \<le> length t" for n
      proof -
        from that m' obtain k where k: "n - (length ds + 1 + length fs) = Suc k"
          by (cases "n - (length ds + 1 + length fs)") auto
        have "length t = length ds + 1 + length fs + length r2" by (subst t2) simp
        with that m' have "r2 \<noteq> []" by auto
        then obtain c2 r3 where r2: "r2 = c2 # r3" by (cases r2) auto
        then have c2nd: "\<not> IsDigit c2"
          using dropWhile_Cons_not [of IsDigit r' c2 r3] by (simp add: r2_def)
        from k have n: "n = length ds + (Suc (length fs + Suc k))" by simp
        have "take n t = ds @ CHR ''.'' # (fs @ c2 # take k r3)"
          unfolding n by (subst t2) (simp add: r2)
        with c2nd show ?thesis
          by (simp add: matches_digits_point [OF ne ds])
      qed
      from a b c le m' tk show ?thesis by simp
    qed
  qed
qed

lemma source_at_append:
  "position < length pre \<Longrightarrow> source_at (pre @ post) position = source_at pre position"
  by (simp add: source_at_def nth_append)

lemma source_at_end: "source_at pre (length pre) = CHR 0x00"
  by (simp add: source_at_def)

lemma source_at_append_Cons: "source_at (pre @ c # rest) (length pre) = c"
  by (simp add: source_at_def)

lemma literal_loop_stop:
  "\<not> (IsDigit (source_at source position) \<or> (\<not> h \<and> source_at source position = CHR ''.''))
   \<Longrightarrow> literal_loop source position h = position"
  by (subst literal_loop.simps) auto

lemma literal_loop_step:
  "IsDigit (source_at source position) \<or> (\<not> h \<and> source_at source position = CHR ''.'')
   \<Longrightarrow> literal_loop source position h
      = literal_loop source (position + 1)
          (if source_at source position = CHR ''.'' then True else h)"
  by (subst literal_loop.simps) auto

lemma literal_loop_prefix:
  "may_follow pre c \<Longrightarrow> position \<le> length pre
    \<Longrightarrow> (c = CHR ''.'' \<longrightarrow> h \<or> position < length pre)
    \<Longrightarrow> literal_loop (pre @ c # rest) position h = literal_loop pre position h"
proof (induction pre position h rule: literal_loop.induct)
  case (1 pre position h)
  from "1.prems"(1) have c: "\<not> IsDigit c" by (simp add: may_follow_def)
  show ?case
  proof (cases "position < length pre")
    case False
    with "1.prems" have e: "position = length pre" by simp
    with "1.prems" c have "\<not> (IsDigit (source_at (pre @ c # rest) position)
        \<or> (\<not> h \<and> source_at (pre @ c # rest) position = CHR ''.''))"
      by (auto simp: source_at_append_Cons)
    then have a: "literal_loop (pre @ c # rest) position h = position"
      by (rule literal_loop_stop)
    from e have "\<not> (IsDigit (source_at pre position)
        \<or> (\<not> h \<and> source_at pre position = CHR ''.''))"
      by (simp add: source_at_end IsDigit_NUL)
    then have b: "literal_loop pre position h = position"
      by (rule literal_loop_stop)
    show ?thesis by (simp only: a b)
  next
    case True
    then have same: "source_at (pre @ c # rest) position = source_at pre position"
      by (rule source_at_append)
    show ?thesis
    proof (cases "IsDigit (source_at pre position)
        \<or> (\<not> h \<and> source_at pre position = CHR ''.'')")
      case False
      then have "literal_loop pre position h = position" by (rule literal_loop_stop)
      moreover from False have "\<not> (IsDigit (source_at (pre @ c # rest) position)
          \<or> (\<not> h \<and> source_at (pre @ c # rest) position = CHR ''.''))"
        unfolding same .
      then have "literal_loop (pre @ c # rest) position h = position"
        by (rule literal_loop_stop)
      ultimately show ?thesis by simp
    next
      case go: True
      let ?h = "if source_at pre position = CHR ''.'' then True else h"
      have "c = CHR ''.'' \<longrightarrow> ?h \<or> position + 1 < length pre"
      proof (intro impI)
        assume dot: "c = CHR ''.''"
        show "?h \<or> position + 1 < length pre"
        proof (rule ccontr)
          assume n: "\<not> (?h \<or> position + 1 < length pre)"
          with True have "position = length pre - 1" "pre \<noteq> []" by auto
          then have "source_at pre position = last pre"
            using True by (simp add: source_at_def last_conv_nth)
          with "1.prems"(1) dot \<open>pre \<noteq> []\<close> go n show False
            by (auto simp: may_follow_def split: if_splits)
        qed
      qed
      moreover from True have "position + 1 \<le> length pre" by simp
      ultimately have ih: "literal_loop (pre @ c # rest) (position + 1) ?h
          = literal_loop pre (position + 1) ?h"
        using "1.IH" [OF go "1.prems"(1)] by simp
      have "literal_loop (pre @ c # rest) position h
          = literal_loop (pre @ c # rest) (position + 1) ?h"
        using go literal_loop_step [of "pre @ c # rest" position h] unfolding same by blast
      also note ih
      also have "literal_loop pre (position + 1) ?h = literal_loop pre position h"
        using go by (rule literal_loop_step [symmetric])
      finally show ?thesis .
    qed
  qed
qed

lemma Scan_loop_prefix:
  "may_follow pre c
    \<Longrightarrow> Scan_loop erange pre position tokens token_positions
      = Inr (Error NO_ERROR 0, tokens', token_positions')
    \<Longrightarrow> position \<le> length pre
    \<Longrightarrow> Scan_loop erange (pre @ c # rest) position tokens token_positions
      = Scan_loop erange (pre @ c # rest) (length pre) tokens' token_positions'"
proof (induction erange pre position tokens token_positions rule: Scan_loop_cases_induct)
  case (finished erange pre position tokens token_positions)
  then show ?case by (auto simp: Scan_loop_end)
next
  case (space erange pre position tokens token_positions)
  then have "Scan_loop erange (pre @ c # rest) position tokens token_positions
      = Scan_loop erange (pre @ c # rest) (position + 1) tokens token_positions"
    by (intro Scan_loop_space) (simp_all add: nth_append)
  with space show ?case by (simp add: Scan_loop_space)
next
  case (operator erange pre position tokens token_positions t)
  then have "Scan_loop erange (pre @ c # rest) position tokens token_positions
      = Scan_loop erange (pre @ c # rest) (position + 1) (tokens @ [Token_type t])
          (token_positions @ [position])"
    by (intro Scan_loop_operator) (simp_all add: nth_append)
  with operator show ?case by (simp add: Scan_loop_operator)
next
  case (literal erange pre position tokens token_positions v)
  let ?q = "literal_loop pre position False"
  let ?ext = "pre @ c # rest"
  from literal(1) literal.prems(1) have q: "literal_loop ?ext position False = ?q"
    by (intro literal_loop_prefix) simp_all
  from literal(1) have le: "?q \<le> length pre" by (intro literal_loop_le) simp
  then have w: "take (?q - position) (drop position ?ext) = take (?q - position) (drop position pre)"
    using literal(1) by simp
  from literal(1,2) have "Scan_loop erange ?ext position tokens token_positions =
      (case stof erange (take (literal_loop ?ext position False - position) (drop position ?ext)) of
         Inl ex \<Rightarrow> Inl ex
       | Inr v \<Rightarrow> Scan_loop erange ?ext (literal_loop ?ext position False)
                   (tokens @ [Token_value v]) (token_positions @ [position]))"
    by (intro Scan_loop_digit) (simp_all add: nth_append)
  then have "Scan_loop erange ?ext position tokens token_positions
      = Scan_loop erange ?ext ?q (tokens @ [Token_value v]) (token_positions @ [position])"
    by (simp only: q w literal(3) sum.case)
  moreover from literal have "Scan_loop erange pre ?q (tokens @ [Token_value v])
      (token_positions @ [position]) = Inr (Error NO_ERROR 0, tokens', token_positions')"
    by (simp add: Scan_loop_digit)
  ultimately show ?case using literal.IH literal.prems(1) le by simp
next
  case (uncaught erange pre position tokens token_positions ex)
  then show ?case by (simp add: Scan_loop_digit)
next
  case (invalid erange pre position tokens token_positions)
  then show ?case by (simp add: Scan_loop_invalid)
qed

lemma Scan_invalid_after_prefix:
  assumes "Scan erange pre = Inr (Error NO_ERROR 0, tokens, token_positions)"
    and "\<not> IsWhiteSpace c" "\<not> starts_token c"
    and "c = CHR ''.'' \<longrightarrow> pre = [] \<or> (\<not> IsDigit (last pre) \<and> last pre \<noteq> CHR ''.'')"
  shows "Scan erange (pre @ c # rest)
    = Inr (Error INVALID_CHAR (length pre), tokens, token_positions @ [length pre])"
proof -
  from assms(3,4) have c: "may_follow pre c" by (simp add: starts_token_def may_follow_def)
  from Scan_loop_prefix [OF c assms(1) [unfolded Scan_def], of rest]
  have "Scan erange (pre @ c # rest)
      = Scan_loop erange (pre @ c # rest) (length pre) tokens token_positions"
    by (simp add: Scan_def)
  also have "\<dots> = Inr (Error INVALID_CHAR (length pre), tokens, token_positions @ [length pre])"
    using assms(2,3) by (intro Scan_loop_invalid) simp_all
  finally show ?thesis .
qed

lemma Scan_error:
  assumes "Scan erange source = Inr (error, tokens, token_positions)" "is_error error"
  shows "error_type error = INVALID_CHAR \<and> location error < length source
      \<and> \<not> IsWhiteSpace (source ! location error) \<and> \<not> starts_token (source ! location error)"
  using Scan_loop_error [OF assms(1) [unfolded Scan_def] assms(2)] by simp

lemma literal_run:
  assumes "position < length source" "IsDigit (source ! position)"
  defines "q \<equiv> literal_loop source position False"
  defines "w \<equiv> take (q - position) (drop position source)"
  shows "position < q \<and> q \<le> length source \<and> matches_literal w
      \<and> length (filter (\<lambda>ch. ch = CHR ''.'') w) \<le> 1
      \<and> (\<forall>n. q - position < n \<and> n \<le> length source - position
            \<longrightarrow> \<not> matches_literal (take n (drop position source)))
      \<and> \<not> IsDigit (source_at source q)
      \<and> (source_at source q = CHR ''.'' \<longrightarrow> CHR ''.'' \<in> set w)"
proof -
  let ?t = "drop position source"
  from assms(1) have ne: "?t \<noteq> []" by simp
  from assms(1,2) have hd: "IsDigit (hd ?t)" by (simp add: hd_drop_conv_nth)
  have q: "q = position + munch ?t" by (simp add: q_def literal_loop_munch)
  then have w: "w = take (munch ?t) ?t" by (simp add: w_def)
  note m = munch_matches [OF ne hd]
  from m have le: "munch ?t \<le> length ?t" by blast
  have max: "\<forall>n. munch ?t < n \<and> n \<le> length ?t \<longrightarrow> \<not> matches_literal (take n ?t)"
    using m by blast
  have stop: "\<not> IsDigit (source_at source q) \<and> (source_at source q = CHR ''.'' \<longrightarrow> CHR ''.'' \<in> set w)"
  proof (cases "q < length source")
    case False
    then show ?thesis by (simp add: source_at_def IsDigit_NUL)
  next
    case True
    let ?c = "source ! q"
    from True q have lt: "munch ?t < length ?t" by simp
    then have tk: "take (Suc (munch ?t)) ?t = w @ [?c]"
      using q by (simp add: w take_Suc_conv_app_nth add.commute)
    from lt have S: "Suc (munch ?t) \<le> length ?t" by simp
    from max S have nm: "\<not> matches_literal (w @ [?c])" by (simp add: tk [symmetric])
    from m have mw: "matches_literal w" by (simp add: w)
    have a: "\<not> IsDigit ?c"
    proof
      assume d: "IsDigit ?c"
      from mw have "takeWhile IsDigit w \<noteq> []" by (simp add: matches_literal_def)
      show False
      proof (cases "dropWhile IsDigit w")
        case Nil
        then have "\<forall>ch \<in> set (w @ [?c]). IsDigit ch" using d by simp
        moreover from mw have "w \<noteq> []" by (auto simp: matches_literal_def)
        ultimately have "matches_literal (w @ [?c])" by (intro matches_digits) simp_all
        with nm show False ..
      next
        case (Cons ch fs)
        with mw have ch: "ch = CHR ''.''" and fs: "list_all IsDigit fs"
          by (simp_all add: matches_literal_def)
        define ds where "ds = takeWhile IsDigit w"
        have wd: "w = ds @ CHR ''.'' # fs"
          using Cons ch takeWhile_dropWhile_id [of IsDigit w] by (simp add: ds_def)
        have ds: "\<forall>x \<in> set ds. IsDigit x" by (auto simp: ds_def dest: set_takeWhileD)
        have dne: "ds \<noteq> []" using \<open>takeWhile IsDigit w \<noteq> []\<close> by (simp add: ds_def)
        have "w @ [?c] = ds @ CHR ''.'' # (fs @ [?c])" by (subst wd) simp
        moreover have "matches_literal (ds @ CHR ''.'' # (fs @ [?c]))"
          using dne ds fs d by (simp add: matches_digits_point)
        ultimately show False using nm by simp
      qed
    qed
    have b: "CHR ''.'' \<in> set w" if dot: "?c = CHR ''.''"
    proof (rule ccontr)
      assume n: "CHR ''.'' \<notin> set w"
      have "dropWhile IsDigit w = []"
      proof (cases "dropWhile IsDigit w")
        case (Cons ch fs)
        with mw have "ch = CHR ''.''" by (simp add: matches_literal_def)
        with Cons have "CHR ''.'' \<in> set (dropWhile IsDigit w)" by simp
        with n show ?thesis by (auto dest: set_dropWhileD)
      qed simp
      then have all: "\<forall>x \<in> set w. IsDigit x" by simp
      from mw have "w \<noteq> []" by (auto simp: matches_literal_def)
      with all have "matches_literal (w @ CHR ''.'' # [])"
        by (simp add: matches_digits_point)
      with nm dot show False by simp
    qed
    from a b True show ?thesis by (simp add: source_at_def)
  qed
  from le assms(1) have "position + munch ?t \<le> length source" by simp
  with m q stop show ?thesis
    by (simp add: w)
qed

lemma Scan_nonnegative:
  assumes "Scan erange source = Inr (error, tokens, token_positions)"
  shows "\<forall>t \<in> set tokens. nonnegative_literal t"
proof (rule Scan_loop_tokens [where Q = nonnegative_literal])
  show "Scan_loop erange source 0 [] [] = Inr (error, tokens, token_positions)"
    using assms by (simp only: Scan_def)
  show "\<forall>t \<in> set ([] :: Token list). nonnegative_literal t" by simp
next
  fix erange w v
  assume "stof erange w = Inr v"
  from stof_nonneg [OF this] show "nonnegative_literal (Token_value v)"
    by (auto simp: nonnegative_literal_def)
next
  fix t
  assume "t \<noteq> LITERAL"
  then show "nonnegative_literal (Token_type t)"
    by (simp add: nonnegative_literal_def)
qed

lemma nonnegative_literal_value:
  assumes "nonnegative_literal t" "token_type t = LITERAL"
  shows "\<exists>q. t = Token_value (Finite q) \<and> 0 \<le> q"
proof (cases t)
  case (Token_type ty)
  with assms show ?thesis by (simp add: nonnegative_literal_def)
next
  case (Token_value v)
  with assms(1) show ?thesis by (cases v) (simp_all add: nonnegative_literal_def)
qed

lemma float_div_zero:
  "is_zero y \<Longrightarrow> float_div x y
    = (if x = NaN \<or> is_zero x then NaN else signed_infinity (sign_bit x \<noteq> sign_bit y))"
  by (cases y; cases x) (auto simp: float_div_def Let_def)

lemma ProcessInput_value:
  assumes "Scan erange input = Inr (Error NO_ERROR l, tokens, token_positions)"
    "Parse tokens token_positions input = Inr (Error NO_ERROR l', Some expr)"
  shows "ProcessInput erange input = Print_Value (Evaluate expr)"
  using assms by (simp add: ProcessInput_def is_error_def)

text \<open>
  Every literal token \<open>Scan\<close> leaves holds the rounding of the decimal value of its text.
\<close>

lemma literal_of_text_snoc_type:
  assumes "length token_positions = length tokens" "literal_of_text source tokens token_positions"
  shows "literal_of_text source (tokens @ [Token_type t]) (token_positions @ [position])"
  unfolding literal_of_text_def
proof (intro allI impI)
  fix i v
  assume i: "i < length (tokens @ [Token_type t])" and v: "(tokens @ [Token_type t]) ! i = Token_value v"
  have "i \<noteq> length tokens" using v by (auto simp: nth_append)
  with i have "i < length tokens" by simp
  with assms v show "v = round_float (decimal_value (literal_text source ((token_positions @ [position]) ! i)))"
    by (simp add: nth_append literal_of_text_def)
qed

lemma literal_of_text_snoc_value:
  assumes "length token_positions = length tokens" "literal_of_text source tokens token_positions"
    and "w = round_float (decimal_value (literal_text source position))"
  shows "literal_of_text source (tokens @ [Token_value w]) (token_positions @ [position])"
  unfolding literal_of_text_def
proof (intro allI impI)
  fix i v
  assume i: "i < length (tokens @ [Token_value w])" and v: "(tokens @ [Token_value w]) ! i = Token_value v"
  show "v = round_float (decimal_value (literal_text source ((token_positions @ [position]) ! i)))"
  proof (cases "i = length tokens")
    case True
    with v assms(1,3) show ?thesis by (simp add: nth_append)
  next
    case False
    with i have "i < length tokens" by simp
    with assms(1,2) v show ?thesis by (simp add: nth_append literal_of_text_def)
  qed
qed

lemma literal_of_text_snoc_position:
  assumes "length token_positions = length tokens" "literal_of_text source tokens token_positions"
  shows "literal_of_text source tokens (token_positions @ [position])"
  using assms by (simp add: literal_of_text_def nth_append)

lemma Scan_loop_literal_of_text:
  "Scan_loop erange source position tokens token_positions = Inr (error, tokens', token_positions')
   \<Longrightarrow> length token_positions = length tokens
   \<Longrightarrow> literal_of_text source tokens token_positions
   \<Longrightarrow> literal_of_text source tokens' token_positions'"
proof (induction erange source position tokens token_positions rule: Scan_loop_cases_induct)
  case (finished erange source position tokens token_positions)
  then show ?case by (simp add: Scan_loop_end)
next
  case (space erange source position tokens token_positions)
  then show ?case by (simp add: Scan_loop_space)
next
  case (operator erange source position tokens token_positions t)
  from operator(4) operator(1,2) have
    "Scan_loop erange source (position + 1) (tokens @ [Token_type t]) (token_positions @ [position])
       = Inr (error, tokens', token_positions')"
    by (simp add: Scan_loop_operator)
  moreover have "length (token_positions @ [position]) = length (tokens @ [Token_type t])"
    using operator(5) by simp
  moreover note literal_of_text_snoc_type [OF operator(5,6)]
  ultimately show ?case by (rule operator(3))
next
  case (literal erange source position tokens token_positions v)
  from literal(5) literal(1,2,3) have
    "Scan_loop erange source (literal_loop source position False) (tokens @ [Token_value v])
        (token_positions @ [position]) = Inr (error, tokens', token_positions')"
    by (simp add: Scan_loop_digit)
  moreover have "length (token_positions @ [position]) = length (tokens @ [Token_value v])"
    using literal(6) by simp
  moreover have "v = round_float (decimal_value (literal_text source position))"
    using stof_value [OF literal(3)] by (simp add: literal_text_def)
  note literal_of_text_snoc_value [OF literal(6,7) this]
  ultimately show ?case by (rule literal(4))
next
  case (uncaught erange source position tokens token_positions ex)
  then show ?case by (simp add: Scan_loop_digit)
next
  case (invalid erange source position tokens token_positions)
  from invalid(4) invalid(1,2,3) have "tokens' = tokens" "token_positions' = token_positions @ [position]"
    by (simp_all add: Scan_loop_invalid)
  with literal_of_text_snoc_position [OF invalid(5,6)] show ?case by simp
qed

lemma Scan_literal_of_text:
  assumes "Scan erange source = Inr (error, tokens, token_positions)"
  shows "literal_of_text source tokens token_positions"
  using assms Scan_loop_literal_of_text [of erange source 0 "[]" "[]" error tokens token_positions]
  by (simp add: Scan_def literal_of_text_def)

text \<open>
  So the value of a literal token is a binary32 number nearest to the decimal value of its
  text: no binary32 number is closer.
\<close>

lemma Scan_literal_nearest:
  assumes "Scan erange source = Inr (error, tokens, token_positions)"
    and "i < length tokens" "tokens ! i = Token_value v" "is_binary32 (Finite y)"
  shows "v = round_float (decimal_value (literal_text source (token_positions ! i)))
     \<and> \<bar>valof v - decimal_value (literal_text source (token_positions ! i))\<bar>
         \<le> \<bar>y - decimal_value (literal_text source (token_positions ! i))\<bar>"
proof -
  let ?d = "decimal_value (literal_text source (token_positions ! i))"
  from Scan_literal_of_text [OF assms(1)] assms(2,3) have v: "v = round_float ?d"
    by (simp add: literal_of_text_def)
  from assms(2,3) have "Token_value v \<in> set tokens" by (metis nth_mem)
  with Scan_nonnegative [OF assms(1)] have "nonnegative_literal (Token_value v)" by blast
  then have "is_finite v" by (cases v) (simp_all add: nonnegative_literal_def)
  with v have "is_finite (round_float ?d)" by simp
  from round_float_nearest [OF this assms(4)] v show ?thesis by simp
qed

section \<open>The numbers of a tree\<close>

lemma only_token_values_simps:
  "only_token_values tokens extra (Return e position) = (literals e \<subseteq> extra \<union> token_values tokens)"
  "only_token_values tokens extra (Throw position)"
  "only_token_values tokens extra (Undefined ub)"
  by (simp_all add: only_token_values_def)

lemma only_token_values_mono:
  "only_token_values tokens extra r \<Longrightarrow> extra \<subseteq> extra' \<union> token_values tokens
   \<Longrightarrow> only_token_values tokens extra' r"
  by (cases r) (auto simp: only_token_values_def)

lemma parser_literals:
  shows "only_token_values tokens {} (Term tokens position)"
    and "only_token_values tokens (literals expr) (Term_loop tokens expr position)"
    and "only_token_values tokens {} (Factor tokens position)"
    and "only_token_values tokens (literals expr) (Factor_loop tokens expr position)"
    and "only_token_values tokens {} (Primary tokens position)"
proof (induction tokens position and tokens expr position and tokens position
    and tokens expr position and tokens position
    rule: Term_Term_loop_Factor_Factor_loop_Primary.induct)
  case (1 tokens position)
  show ?case
  proof (cases "Factor tokens position")
    case (Return x q)
    with "1.IH"(1) have "literals x \<subseteq> token_values tokens"
      by (simp add: only_token_values_simps)
    with "1.IH"(2) [OF Return] have "only_token_values tokens {} (Term_loop tokens x q)"
      by (auto intro: only_token_values_mono)
    with Return show ?thesis by (subst Term.simps) simp
  next
    case (Throw q)
    then show ?thesis by (subst Term.simps) (simp add: only_token_values_simps)
  next
    case (Undefined ub)
    then show ?thesis by (subst Term.simps) (simp add: only_token_values_simps)
  qed
next
  case (2 tokens expr position)
  show ?case
  proof (cases "Match tokens position [ADD, SUB]")
    case (Inl ub)
    then show ?thesis
      by (subst Term_loop.simps) (simp add: only_token_values_simps del: Match.simps)
  next
    case (Inr b)
    show ?thesis
    proof (cases b)
      case False
      with Inr show ?thesis
        by (subst Term_loop.simps) (simp add: only_token_values_simps del: Match.simps)
    next
      case True
      with Inr have m: "Match tokens position [ADD, SUB] = Inr True" by simp
      show ?thesis
      proof (cases "index_read tokens position")
        case (Inl ub)
        with m show ?thesis
          by (subst Term_loop.simps) (simp add: only_token_values_simps del: Match.simps)
      next
        case tok: (Inr token)
        show ?thesis
        proof (cases "Factor tokens (position + 1)")
          case (Return rhs q)
          let ?e = "if token_type token = ADD then AddExpression expr rhs
                    else SubtractExpression expr rhs"
          from "2.IH"(1) [OF m refl tok] Return have "literals rhs \<subseteq> token_values tokens"
            by (simp add: only_token_values_simps)
          then have "literals ?e \<subseteq> literals expr \<union> token_values tokens" by auto
          with "2.IH"(2) [OF m refl tok Return]
          have "only_token_values tokens (literals expr) (Term_loop tokens ?e q)"
            by (rule only_token_values_mono)
          with m tok Return show ?thesis
            by (subst Term_loop.simps) (simp del: Match.simps)
        next
          case (Throw q)
          with m tok show ?thesis
            by (subst Term_loop.simps) (simp add: only_token_values_simps del: Match.simps)
        next
          case (Undefined ub)
          with m tok show ?thesis
            by (subst Term_loop.simps) (simp add: only_token_values_simps del: Match.simps)
        qed
      qed
    qed
  qed
next
  case (3 tokens position)
  show ?case
  proof (cases "Primary tokens position")
    case (Return x q)
    with "3.IH"(1) have "literals x \<subseteq> token_values tokens"
      by (simp add: only_token_values_simps)
    with "3.IH"(2) [OF Return] have "only_token_values tokens {} (Factor_loop tokens x q)"
      by (auto intro: only_token_values_mono)
    with Return show ?thesis by (subst Factor.simps) simp
  next
    case (Throw q)
    then show ?thesis by (subst Factor.simps) (simp add: only_token_values_simps)
  next
    case (Undefined ub)
    then show ?thesis by (subst Factor.simps) (simp add: only_token_values_simps)
  qed
next
  case (4 tokens expr position)
  show ?case
  proof (cases "Match tokens position [MUL, DIV]")
    case (Inl ub)
    then show ?thesis
      by (subst Factor_loop.simps) (simp add: only_token_values_simps del: Match.simps)
  next
    case (Inr b)
    show ?thesis
    proof (cases b)
      case False
      with Inr show ?thesis
        by (subst Factor_loop.simps) (simp add: only_token_values_simps del: Match.simps)
    next
      case True
      with Inr have m: "Match tokens position [MUL, DIV] = Inr True" by simp
      show ?thesis
      proof (cases "index_read tokens position")
        case (Inl ub)
        with m show ?thesis
          by (subst Factor_loop.simps) (simp add: only_token_values_simps del: Match.simps)
      next
        case tok: (Inr token)
        show ?thesis
        proof (cases "Primary tokens (position + 1)")
          case (Return rhs q)
          let ?e = "if token_type token = MUL then MultiplyExpression expr rhs
                    else DivideExpression expr rhs"
          from "4.IH"(1) [OF m refl tok] Return have "literals rhs \<subseteq> token_values tokens"
            by (simp add: only_token_values_simps)
          then have "literals ?e \<subseteq> literals expr \<union> token_values tokens" by auto
          with "4.IH"(2) [OF m refl tok Return]
          have "only_token_values tokens (literals expr) (Factor_loop tokens ?e q)"
            by (rule only_token_values_mono)
          with m tok Return show ?thesis
            by (subst Factor_loop.simps) (simp del: Match.simps)
        next
          case (Throw q)
          with m tok show ?thesis
            by (subst Factor_loop.simps) (simp add: only_token_values_simps del: Match.simps)
        next
          case (Undefined ub)
          with m tok show ?thesis
            by (subst Factor_loop.simps) (simp add: only_token_values_simps del: Match.simps)
        qed
      qed
    qed
  qed
next
  case (5 tokens position)
  show ?case
  proof (cases "Match tokens position [LITERAL]")
    case (Inl ub)
    then show ?thesis
      by (subst Primary.simps) (simp add: only_token_values_simps del: Match.simps)
  next
    case lit: (Inr b)
    show ?thesis
    proof (cases b)
      case True
      show ?thesis
      proof (cases "index_read tokens position")
        case (Inl ub)
        with lit True show ?thesis
          by (subst Primary.simps) (simp add: only_token_values_simps del: Match.simps)
      next
        case tok: (Inr token)
        then have mem: "token \<in> set tokens"
          by (auto simp: index_read_def split: if_splits)
        show ?thesis
        proof (cases token)
          case (Token_type t)
          with lit True tok show ?thesis
            by (subst Primary.simps) (simp add: only_token_values_simps del: Match.simps)
        next
          case (Token_value v)
          with mem have "v \<in> token_values tokens" by (simp add: token_values_def)
          with lit True tok Token_value show ?thesis
            by (subst Primary.simps) (simp add: only_token_values_simps del: Match.simps)
        qed
      qed
    next
      case False
      with lit have l: "Match tokens position [LITERAL] = Inr False" by simp
      show ?thesis
      proof (cases "Match tokens position [LEFT_PAREN]")
        case (Inl ub)
        with l show ?thesis
          by (subst Primary.simps) (simp add: only_token_values_simps del: Match.simps)
      next
        case par: (Inr b')
        show ?thesis
        proof (cases b')
          case nopar: False
          with l par show ?thesis
            by (subst Primary.simps) (simp add: only_token_values_simps del: Match.simps)
        next
          case True
          with par have p: "Match tokens position [LEFT_PAREN] = Inr True" by simp
          show ?thesis
          proof (cases "Term tokens (position + 1)")
            case (Return x q)
            with "5.IH" [OF l refl p refl] have "literals x \<subseteq> token_values tokens"
              by (simp add: only_token_values_simps)
            with l p Return show ?thesis
              by (subst Primary.simps)
                 (simp add: only_token_values_simps del: Match.simps split: outcome.split)
          next
            case (Throw q)
            with l p show ?thesis
              by (subst Primary.simps) (simp add: only_token_values_simps del: Match.simps)
          next
            case (Undefined ub)
            with l p show ?thesis
              by (subst Primary.simps) (simp add: only_token_values_simps del: Match.simps)
          qed
        qed
      qed
    qed
  qed
qed

lemma Parse_literals:
  assumes "Parse tokens token_positions source = Inr (error, Some expr)"
  shows "literals expr \<subseteq> token_values tokens"
proof -
  from assms obtain position where "Term tokens 0 = Return expr position"
    by (auto simp: Parse_def split: outcome.splits if_splits sum.splits)
  with parser_literals(1) [of tokens 0] show ?thesis
    by (simp add: only_token_values_simps)
qed

lemma is_binary32_Evaluate:
  "\<forall>v \<in> literals expr. is_binary32 v \<Longrightarrow> is_binary32 (Evaluate expr)"
  by (induction expr)
     (simp_all add: is_binary32_float_add is_binary32_float_sub is_binary32_float_mul
        is_binary32_float_div)

lemma Scan_binary32:
  assumes "Scan erange source = Inr (error, tokens, token_positions)"
  shows "\<forall>v \<in> token_values tokens. is_binary32 v"
proof -
  have "\<forall>t \<in> set tokens. binary32_token t"
  proof (rule Scan_loop_tokens [where Q = binary32_token])
    show "Scan_loop erange source 0 [] [] = Inr (error, tokens, token_positions)"
      using assms by (simp only: Scan_def)
    show "\<forall>t \<in> set ([] :: Token list). binary32_token t" by simp
  next
    fix erange w v
    assume "stof erange w = Inr v"
    then show "binary32_token (Token_value v)"
      by (simp add: binary32_token_def stof_is_binary32)
  next
    fix t :: Type
    show "binary32_token (Token_type t)" by (simp add: binary32_token_def)
  qed
  then show ?thesis by (auto simp: token_values_def binary32_token_def)
qed

lemma ProcessInput_binary32:
  assumes "ProcessInput erange input = Print_Value v"
  shows "is_binary32 v"
proof -
  from assms obtain error tokens token_positions error' expr
    where s: "Scan erange input = Inr (error, tokens, token_positions)"
      and p: "Parse tokens token_positions input = Inr (error', Some expr)"
      and v: "v = Evaluate expr"
    by (auto simp: ProcessInput_def split: sum.splits prod.splits if_splits option.splits)
  from Parse_literals [OF p] Scan_binary32 [OF s] have "\<forall>v \<in> literals expr. is_binary32 v"
    by blast
  then show ?thesis unfolding v by (rule is_binary32_Evaluate)
qed

lemma round_double_int: "\<bar>i\<bar> \<le> 2 ^ 53 \<Longrightarrow> round_double (of_int i) = Finite (of_int i)"
  unfolding round_double_def
  by (intro round_to_format_exact in_format_int) simp_all

section \<open>Precedence\<close>

text \<open>
  C1. For every well-formed input, multiplication and division bind tighter than addition
  and subtraction, because the parser builds the tree by the layers of the grammar: on the
  tokens of a term it returns the tree of the derivation, in which the operands of \<open>+\<close> and
  \<open>-\<close> are whole factors (products and quotients), and the operands of \<open>*\<close> and \<open>/\<close> are
  primaries. So \<open>2 + 3 * 4\<close> evaluates to 14 and \<open>(2 + 3) * 4\<close> to 20.
\<close>

theorem precedence_by_grammar_layering:
  "(derives_term tokens expr
      \<longrightarrow> Parse tokens token_positions source = Inr (Error NO_ERROR 0, Some expr))
   \<and> (derives_factor ts1 e1 \<and> derives_factor ts2 e2
      \<longrightarrow> Parse (ts1 @ Token_type ADD # ts2) token_positions source
            = Inr (Error NO_ERROR 0, Some (AddExpression e1 e2))
        \<and> Parse (ts1 @ Token_type SUB # ts2) token_positions source
            = Inr (Error NO_ERROR 0, Some (SubtractExpression e1 e2)))
   \<and> ProcessInput erange ''2 + 3 * 4'' = Print_Value (Finite 14)
   \<and> ProcessInput erange ''(2 + 3) * 4'' = Print_Value (Finite 20)"
proof (intro conjI impI)
  assume "derives_term tokens expr"
  then show "Parse tokens token_positions source = Inr (Error NO_ERROR 0, Some expr)"
    by (rule Parse_derivation)
next
  assume "derives_factor ts1 e1 \<and> derives_factor ts2 e2"
  then have "derives_term (ts1 @ Token_type ADD # ts2) (AddExpression e1 e2)"
    by (intro add factor) simp_all
  then show "Parse (ts1 @ Token_type ADD # ts2) token_positions source
      = Inr (Error NO_ERROR 0, Some (AddExpression e1 e2))"
    by (rule Parse_derivation)
next
  assume "derives_factor ts1 e1 \<and> derives_factor ts2 e2"
  then have "derives_term (ts1 @ Token_type SUB # ts2) (SubtractExpression e1 e2)"
    by (intro sub factor) simp_all
  then show "Parse (ts1 @ Token_type SUB # ts2) token_positions source
      = Inr (Error NO_ERROR 0, Some (SubtractExpression e1 e2))"
    by (rule Parse_derivation)
next
  show "ProcessInput erange ''2 + 3 * 4'' = Print_Value (Finite 14)"
    by code_simp
next
  show "ProcessInput erange ''(2 + 3) * 4'' = Print_Value (Finite 20)"
    by code_simp
qed

theorem precedence_by_grammar_layering_witness:
  "derives_term
     [Token_value (Finite 2), Token_type ADD, Token_value (Finite 3), Token_type MUL,
      Token_value (Finite 4)]
     (AddExpression (LiteralExpression (Finite 2))
        (MultiplyExpression (LiteralExpression (Finite 3)) (LiteralExpression (Finite 4))))
   \<and> derives_factor [Token_value (Finite 3), Token_type MUL, Token_value (Finite 4)]
     (MultiplyExpression (LiteralExpression (Finite 3)) (LiteralExpression (Finite 4)))
   \<and> Parse
     [Token_value (Finite 2), Token_type ADD, Token_value (Finite 3), Token_type MUL,
      Token_value (Finite 4)] [0, 2, 4, 6, 8] ''2 + 3 * 4''
     = Inr (Error NO_ERROR 0,
         Some (AddExpression (LiteralExpression (Finite 2))
           (MultiplyExpression (LiteralExpression (Finite 3)) (LiteralExpression (Finite 4)))))"
proof -
  have two: "derives_factor [Token_value (Finite 2)] (LiteralExpression (Finite 2))"
    by (intro primary literal)
  have "derives_factor ([Token_value (Finite 3)] @ Token_type MUL # [Token_value (Finite 4)])
     (MultiplyExpression (LiteralExpression (Finite 3)) (LiteralExpression (Finite 4)))"
    by (intro mul primary literal)
  then have product: "derives_factor [Token_value (Finite 3), Token_type MUL, Token_value (Finite 4)]
     (MultiplyExpression (LiteralExpression (Finite 3)) (LiteralExpression (Finite 4)))"
    by simp
  from add [OF factor [OF two] product]
  have sum: "derives_term
     [Token_value (Finite 2), Token_type ADD, Token_value (Finite 3), Token_type MUL,
      Token_value (Finite 4)]
     (AddExpression (LiteralExpression (Finite 2))
        (MultiplyExpression (LiteralExpression (Finite 3)) (LiteralExpression (Finite 4))))"
    by simp
  from precedence_by_grammar_layering
    [of "[Token_value (Finite 2), Token_type ADD, Token_value (Finite 3), Token_type MUL,
          Token_value (Finite 4)]" _ "[0, 2, 4, 6, 8]" "''2 + 3 * 4''"] sum product
  show ?thesis by blast
qed

section \<open>Associativity\<close>

text \<open>
  C2. For every chain of operators of the same precedence the parser folds the operands
  into a chain of binary nodes that leans to the left, both for \<open>+\<close>, \<open>-\<close> over factors and for
  \<open>*\<close>, \<open>/\<close> over primaries, so that evaluation goes from left to right; \<open>8 - 3 - 2\<close>
  evaluates to 3, not to 7.
\<close>

theorem same_precedence_chains_lean_left:
  "(derives_factor first e0
      \<and> (\<forall>(op, ts, e) \<in> set rest. (op = ADD \<or> op = SUB) \<and> derives_factor ts e)
      \<longrightarrow> Parse (chain_tokens first rest) token_positions source
          = Inr (Error NO_ERROR 0, Some (left_chain e0 rest)))
   \<and> (derives_primary first e0
      \<and> (\<forall>(op, ts, e) \<in> set rest. (op = MUL \<or> op = DIV) \<and> derives_primary ts e)
      \<longrightarrow> Parse (chain_tokens first rest) token_positions source
          = Inr (Error NO_ERROR 0, Some (left_chain e0 rest)))
   \<and> Evaluate (left_chain e0 rest) = left_to_right (Evaluate e0) rest
   \<and> Parse [Token_value (Finite 8), Token_type SUB, Token_value (Finite 3), Token_type SUB,
         Token_value (Finite 2)] [0, 2, 4, 6, 8] ''8 - 3 - 2''
       = Inr (Error NO_ERROR 0,
           Some (SubtractExpression
             (SubtractExpression (LiteralExpression (Finite 8)) (LiteralExpression (Finite 3)))
             (LiteralExpression (Finite 2))))
   \<and> ProcessInput erange ''8 - 3 - 2'' = Print_Value (Finite 3)
   \<and> ProcessInput erange ''8 - 3 - 2'' \<noteq> Print_Value (Finite 7)"
proof (intro conjI impI)
  assume "derives_factor first e0
      \<and> (\<forall>(op, ts, e) \<in> set rest. (op = ADD \<or> op = SUB) \<and> derives_factor ts e)"
  then have "derives_term (chain_tokens first rest) (left_chain e0 rest)"
    by (intro term_chain) simp_all
  then show "Parse (chain_tokens first rest) token_positions source
      = Inr (Error NO_ERROR 0, Some (left_chain e0 rest))"
    by (rule Parse_derivation)
next
  assume "derives_primary first e0
      \<and> (\<forall>(op, ts, e) \<in> set rest. (op = MUL \<or> op = DIV) \<and> derives_primary ts e)"
  then have "derives_factor (chain_tokens first rest) (left_chain e0 rest)"
    by (intro factor_chain) simp_all
  then have "derives_term (chain_tokens first rest) (left_chain e0 rest)"
    by (rule factor)
  then show "Parse (chain_tokens first rest) token_positions source
      = Inr (Error NO_ERROR 0, Some (left_chain e0 rest))"
    by (rule Parse_derivation)
next
  show "Evaluate (left_chain e0 rest) = left_to_right (Evaluate e0) rest"
    by (rule Evaluate_left_chain)
next
  show "Parse [Token_value (Finite 8), Token_type SUB, Token_value (Finite 3), Token_type SUB,
         Token_value (Finite 2)] [0, 2, 4, 6, 8] ''8 - 3 - 2''
       = Inr (Error NO_ERROR 0,
           Some (SubtractExpression
             (SubtractExpression (LiteralExpression (Finite 8)) (LiteralExpression (Finite 3)))
             (LiteralExpression (Finite 2))))"
    by code_simp
next
  show "ProcessInput erange ''8 - 3 - 2'' = Print_Value (Finite 3)"
    by code_simp
  then show "ProcessInput erange ''8 - 3 - 2'' \<noteq> Print_Value (Finite 7)"
    by simp
qed

theorem same_precedence_chains_lean_left_witness:
  "derives_factor [Token_value (Finite 8)] (LiteralExpression (Finite 8))
   \<and> derives_factor [Token_value (Finite 3)] (LiteralExpression (Finite 3))
   \<and> derives_factor [Token_value (Finite 2)] (LiteralExpression (Finite 2))
   \<and> Parse [Token_value (Finite 8), Token_type SUB, Token_value (Finite 3), Token_type SUB,
         Token_value (Finite 2)] [0, 2, 4, 6, 8] ''8 - 3 - 2''
       = Inr (Error NO_ERROR 0,
           Some (SubtractExpression
             (SubtractExpression (LiteralExpression (Finite 8)) (LiteralExpression (Finite 3)))
             (LiteralExpression (Finite 2))))
   \<and> derives_primary [Token_value (Finite 8)] (LiteralExpression (Finite 8))
   \<and> derives_primary [Token_value (Finite 4)] (LiteralExpression (Finite 4))
   \<and> derives_primary [Token_value (Finite 2)] (LiteralExpression (Finite 2))
   \<and> Parse [Token_value (Finite 8), Token_type DIV, Token_value (Finite 4), Token_type MUL,
         Token_value (Finite 2)] [0, 2, 4, 6, 8] ''8 / 4 * 2''
       = Inr (Error NO_ERROR 0,
           Some (MultiplyExpression
             (DivideExpression (LiteralExpression (Finite 8)) (LiteralExpression (Finite 4)))
             (LiteralExpression (Finite 2))))"
proof -
  have p: "derives_primary [Token_value v] (LiteralExpression v)" for v
    by (rule literal)
  have f: "derives_factor [Token_value v] (LiteralExpression v)" for v
    by (intro primary literal)
  let ?subs = "[(SUB, [Token_value (Finite 3)], LiteralExpression (Finite 3)),
                (SUB, [Token_value (Finite 2)], LiteralExpression (Finite 2))]"
  let ?muls = "[(DIV, [Token_value (Finite 4)], LiteralExpression (Finite 4)),
                (MUL, [Token_value (Finite 2)], LiteralExpression (Finite 2))]"
  have subs: "\<forall>(op, ts, e) \<in> set ?subs. (op = ADD \<or> op = SUB) \<and> derives_factor ts e"
    by (simp add: f)
  have muls: "\<forall>(op, ts, e) \<in> set ?muls. (op = MUL \<or> op = DIV) \<and> derives_primary ts e"
    by (simp add: p)
  from same_precedence_chains_lean_left
    [of "[Token_value (Finite 8)]" "LiteralExpression (Finite 8)" ?subs "[0, 2, 4, 6, 8]" "''8 - 3 - 2''"]
    f subs
  have a: "Parse (chain_tokens [Token_value (Finite 8)] ?subs) [0, 2, 4, 6, 8] ''8 - 3 - 2''
      = Inr (Error NO_ERROR 0, Some (left_chain (LiteralExpression (Finite 8)) ?subs))"
    by blast
  from same_precedence_chains_lean_left
    [of "[Token_value (Finite 8)]" "LiteralExpression (Finite 8)" ?muls "[0, 2, 4, 6, 8]" "''8 / 4 * 2''"]
    p muls
  have b: "Parse (chain_tokens [Token_value (Finite 8)] ?muls) [0, 2, 4, 6, 8] ''8 / 4 * 2''
      = Inr (Error NO_ERROR 0, Some (left_chain (LiteralExpression (Finite 8)) ?muls))"
    by blast
  from a b f p subs muls show ?thesis
    by (simp add: chain_tokens_def left_chain_def)
qed

section \<open>End of input\<close>

text \<open>
  C3. For every token sequence in which a primary expression is required and the token
  stream is exhausted (nothing at all, an operator at the end, an open parenthesis at the
  end), \<open>Parse\<close> reports \<open>END_OF_STREAM\<close> with the length of the source as location, and not
  \<open>INVALID_TOKEN\<close>: \<open>Primary\<close> at the end of the tokens throws with \<open>position\<close> at the end, the
  exception passes through every caller, and the handler of \<open>Parse\<close> finds \<open>IsAtEnd\<close>.
\<close>

theorem exhausted_stream_is_end_of_input:
  "Primary tokens (length tokens) = Throw (length tokens)
   \<and> (Term tokens 0 = Throw (length tokens)
      \<longrightarrow> Parse tokens token_positions source = Inr (Error END_OF_STREAM (length source), None))
   \<and> (expects_primary tokens
      \<longrightarrow> Term tokens 0 = Throw (length tokens)
        \<and> Parse tokens token_positions source = Inr (Error END_OF_STREAM (length source), None))
   \<and> ProcessInput erange ''('' = Print_Error (Error END_OF_STREAM 1)
   \<and> ProcessInput erange ''1 +'' = Print_Error (Error END_OF_STREAM 3)
   \<and> ProcessInput erange ''2 * (3 -'' = Print_Error (Error END_OF_STREAM 8)
   \<and> ProcessInput erange [] = Print_Error (Error END_OF_STREAM 0)"
proof (intro conjI impI)
  show "Primary tokens (length tokens) = Throw (length tokens)"
    by (rule Primary_at_end)
next
  assume "Term tokens 0 = Throw (length tokens)"
  then show "Parse tokens token_positions source = Inr (Error END_OF_STREAM (length source), None)"
    by (rule Parse_Throw_at_end)
next
  assume "expects_primary tokens"
  then show t: "Term tokens 0 = Throw (length tokens)"
    by (rule Term_expects_primary)
  then show "Parse tokens token_positions source = Inr (Error END_OF_STREAM (length source), None)"
    by (rule Parse_Throw_at_end)
next
  show "ProcessInput erange ''('' = Print_Error (Error END_OF_STREAM 1)"
    by code_simp
next
  show "ProcessInput erange ''1 +'' = Print_Error (Error END_OF_STREAM 3)"
    by code_simp
next
  show "ProcessInput erange ''2 * (3 -'' = Print_Error (Error END_OF_STREAM 8)"
    by code_simp
next
  show "ProcessInput erange [] = Print_Error (Error END_OF_STREAM 0)"
    by code_simp
qed

theorem exhausted_stream_is_end_of_input_witness:
  "expects_primary [Token_value (Finite 2), Token_type MUL, Token_type LEFT_PAREN,
      Token_value (Finite 3), Token_type SUB]
   \<and> Term [Token_value (Finite 2), Token_type MUL, Token_type LEFT_PAREN,
      Token_value (Finite 3), Token_type SUB] 0 = Throw 5
   \<and> Parse [Token_value (Finite 2), Token_type MUL, Token_type LEFT_PAREN,
      Token_value (Finite 3), Token_type SUB] [0, 2, 4, 5, 7] ''2 * (3 -''
     = Inr (Error END_OF_STREAM 8, None)"
proof -
  have t: "derives_term [Token_value v] (LiteralExpression v)" for v
    by (intro factor primary literal)
  have "expects_primary ([Token_value (Finite 2)] @ [Token_type MUL])"
    by (rule after_operator [OF t]) (simp add: is_operator_def)
  moreover have "expects_primary ([Token_value (Finite 3)] @ [Token_type SUB])"
    by (rule after_operator [OF t]) (simp add: is_operator_def)
  ultimately have "expects_primary (([Token_value (Finite 2)] @ [Token_type MUL])
      @ Token_type LEFT_PAREN # ([Token_value (Finite 3)] @ [Token_type SUB]))"
    by (rule after_paren)
  then have e: "expects_primary [Token_value (Finite 2), Token_type MUL, Token_type LEFT_PAREN,
      Token_value (Finite 3), Token_type SUB]"
    by simp
  from exhausted_stream_is_end_of_input
    [of "[Token_value (Finite 2), Token_type MUL, Token_type LEFT_PAREN,
          Token_value (Finite 3), Token_type SUB]" "[0, 2, 4, 5, 7]" "''2 * (3 -''"] e
  show ?thesis by simp
qed

section \<open>Token array bounds in the parser\<close>

text \<open>
  C4. The claim: for every token sequence \<open>Parse\<close> returns a result with every read of the
  token array in bounds, and \<open>Consume\<close> does not read past the end when the closing
  parenthesis is missing at the end of the stream, as in \<open>(1\<close>. The code does read past
  the end there: \<open>Consume\<close> tests \<open>tokens[position].token_type\<close> without asking \<open>IsAtEnd\<close>
  first, so at the size of the array it reads the element one past the last. For every
  opening parenthesis followed by a complete term and no further token, \<open>Parse\<close> makes that
  read. On the two tokens of \<open>(1\<close>, the nested \<open>Term\<close> returns at position 2, the size
  of the array, and \<open>Consume\<close> reads \<open>tokens[2]\<close>.
\<close>

theorem Consume_reads_past_the_end:
  "Consume tokens (length tokens) type = Undefined (OutOfBoundsRead (length tokens))
   \<and> (derives_term ts e
      \<longrightarrow> Parse (Token_type LEFT_PAREN # ts) token_positions source
            = Inl (OutOfBoundsRead (Suc (length ts))))
   \<and> Scan erange ''(1'' = Inr (Error NO_ERROR 0, [Token_type LEFT_PAREN, Token_value (Finite 1)], [0, 1])
   \<and> Term [Token_type LEFT_PAREN, Token_value (Finite 1)] 1 = Return (LiteralExpression (Finite 1)) 2
   \<and> Consume [Token_type LEFT_PAREN, Token_value (Finite 1)] 2 RIGHT_PAREN = Undefined (OutOfBoundsRead 2)
   \<and> Parse [Token_type LEFT_PAREN, Token_value (Finite 1)] [0, 1] ''(1'' = Inl (OutOfBoundsRead 2)
   \<and> ProcessInput erange ''(1'' = Undefined_Behaviour (OutOfBoundsRead 2)"
proof (intro conjI impI)
  show "Consume tokens (length tokens) type = Undefined (OutOfBoundsRead (length tokens))"
    by (rule Consume_at_end)
  show "Parse (Token_type LEFT_PAREN # ts) token_positions source
          = Inl (OutOfBoundsRead (Suc (length ts)))" if "derives_term ts e"
    using that by (rule unclosed_parenthesis)
  show "Scan erange ''(1''
          = Inr (Error NO_ERROR 0, [Token_type LEFT_PAREN, Token_value (Finite 1)], [0, 1])"
    by code_simp
  show "Term [Token_type LEFT_PAREN, Token_value (Finite 1)] 1
          = Return (LiteralExpression (Finite 1)) 2"
    by code_simp
  show "Consume [Token_type LEFT_PAREN, Token_value (Finite 1)] 2 RIGHT_PAREN
          = Undefined (OutOfBoundsRead 2)"
    by code_simp
  show "Parse [Token_type LEFT_PAREN, Token_value (Finite 1)] [0, 1] ''(1''
          = Inl (OutOfBoundsRead 2)"
    by code_simp
  show "ProcessInput erange ''(1'' = Undefined_Behaviour (OutOfBoundsRead 2)"
    by code_simp
qed

theorem Consume_reads_past_the_end_witness:
  "derives_term [Token_value (Finite 2), Token_type ADD, Token_value (Finite 3)]
      (AddExpression (LiteralExpression (Finite 2)) (LiteralExpression (Finite 3)))
   \<and> Parse [Token_type LEFT_PAREN, Token_value (Finite 2), Token_type ADD, Token_value (Finite 3)]
        [0, 1, 2, 3] ''(2+3'' = Inl (OutOfBoundsRead 4)"
proof -
  let ?ts = "[Token_value (Finite 2), Token_type ADD, Token_value (Finite 3)]"
  let ?e = "AddExpression (LiteralExpression (Finite 2)) (LiteralExpression (Finite 3))"
  have "derives_term ([Token_value (Finite 2)] @ Token_type ADD # [Token_value (Finite 3)]) ?e"
    by (intro add factor primary literal)
  then have d: "derives_term ?ts ?e"
    by simp
  note general = Consume_reads_past_the_end
    [of "[]" ADD ?ts ?e "[0, 1, 2, 3]" "''(2+3''" erange for erange, THEN conjunct2, THEN conjunct1]
  from general d
  have "Parse (Token_type LEFT_PAREN # ?ts) [0, 1, 2, 3] ''(2+3''
          = Inl (OutOfBoundsRead (Suc (length ?ts)))"
    by blast
  then have "Parse (Token_type LEFT_PAREN # ?ts) [0, 1, 2, 3] ''(2+3'' = Inl (OutOfBoundsRead 4)"
    by simp
  with d show ?thesis by blast
qed

section \<open>Leftover tokens\<close>

text \<open>
  C5. For every token sequence of which \<open>Term\<close> parses a complete term and leaves tokens
  unconsumed, \<open>Parse\<close> reports \<open>INVALID_TOKEN\<close> at the source offset of the first token left
  over, as for the second \<open>)\<close> of \<open>(2+1))\<close> and the second number of \<open>23 23\<close>; \<open>Parse\<close> reports
  \<open>NO_ERROR\<close> only when \<open>Term\<close> has consumed every token.
\<close>

theorem leftover_tokens_are_unexpected:
  "(Term tokens 0 = Return expr position \<and> position \<noteq> length tokens
      \<and> length token_positions = length tokens
      \<longrightarrow> position < length tokens
        \<and> Parse tokens token_positions source
            = Inr (Error INVALID_TOKEN (token_positions ! position), Some expr))
   \<and> (derives_term ts e \<and> rest \<noteq> [] \<and> \<not> is_operator (token_type (hd rest))
      \<and> length token_positions = length (ts @ rest)
      \<longrightarrow> Parse (ts @ rest) token_positions source
            = Inr (Error INVALID_TOKEN (token_positions ! length ts), Some e))
   \<and> (Parse tokens token_positions source = Inr (Error NO_ERROR l, ast)
      \<longrightarrow> (\<exists>expr. ast = Some expr \<and> Term tokens 0 = Return expr (length tokens)))
   \<and> ProcessInput erange ''(2+1))'' = Print_Error (Error INVALID_TOKEN 5)
   \<and> ProcessInput erange ''23 23'' = Print_Error (Error INVALID_TOKEN 3)"
proof (intro conjI impI)
  assume a: "Term tokens 0 = Return expr position \<and> position \<noteq> length tokens
      \<and> length token_positions = length tokens"
  with Term_returns_in_bounds [of tokens expr position]
  show "position < length tokens" by simp
  from a show "Parse tokens token_positions source
      = Inr (Error INVALID_TOKEN (token_positions ! position), Some expr)"
    by (intro Parse_leftover) simp_all
next
  assume a: "derives_term ts e \<and> rest \<noteq> [] \<and> \<not> is_operator (token_type (hd rest))
      \<and> length token_positions = length (ts @ rest)"
  then have "Term (ts @ rest) 0 = Return e (length ts)"
    by (intro Term_leftover) simp_all
  moreover from a have "length ts \<noteq> length (ts @ rest)" by simp
  ultimately show "Parse (ts @ rest) token_positions source
      = Inr (Error INVALID_TOKEN (token_positions ! length ts), Some e)"
    using a by (intro Parse_leftover) simp_all
next
  assume "Parse tokens token_positions source = Inr (Error NO_ERROR l, ast)"
  then show "\<exists>expr. ast = Some expr \<and> Term tokens 0 = Return expr (length tokens)"
    using Parse_NO_ERROR by blast
next
  show "ProcessInput erange ''(2+1))'' = Print_Error (Error INVALID_TOKEN 5)"
    by code_simp
next
  show "ProcessInput erange ''23 23'' = Print_Error (Error INVALID_TOKEN 3)"
    by code_simp
qed

theorem leftover_tokens_are_unexpected_witness:
  "Term [Token_value (Finite 23), Token_value (Finite 23)] 0 = Return (LiteralExpression (Finite 23)) 1
   \<and> (1::nat) \<noteq> length [Token_value (Finite 23), Token_value (Finite 23)]
   \<and> length [0, 3 :: nat] = length [Token_value (Finite 23), Token_value (Finite 23)]
   \<and> derives_term [Token_value (Finite 23)] (LiteralExpression (Finite 23))
   \<and> [Token_value (Finite 23)] \<noteq> []
   \<and> \<not> is_operator (token_type (hd [Token_value (Finite 23)]))
   \<and> Parse [Token_value (Finite 23), Token_value (Finite 23)] [0, 3] ''23 23''
       = Inr (Error INVALID_TOKEN ([0, 3] ! 1), Some (LiteralExpression (Finite 23)))
   \<and> Parse [Token_value (Finite 23)] [0] ''23''
       = Inr (Error NO_ERROR 0, Some (LiteralExpression (Finite 23)))
   \<and> (\<exists>expr. Some (LiteralExpression (Finite 23)) = Some expr
        \<and> Term [Token_value (Finite 23)] 0 = Return expr (length [Token_value (Finite 23)]))"
proof -
  let ?two = "[Token_value (Finite 23), Token_value (Finite 23)]"
  let ?one = "[Token_value (Finite 23)]"
  let ?e = "LiteralExpression (Finite 23)"
  have t: "Term ?two 0 = Return ?e 1"
    by code_simp
  have n: "(1::nat) \<noteq> length ?two" "length [0, 3 :: nat] = length ?two" "?one \<noteq> []"
    "\<not> is_operator (token_type (hd ?one))"
    by (simp_all add: is_operator_def)
  have d: "derives_term ?one ?e"
    by (intro factor primary literal)
  have p: "Parse ?one [0] ''23'' = Inr (Error NO_ERROR 0, Some ?e)"
    by code_simp
  note first = leftover_tokens_are_unexpected
    [of ?two ?e 1 "[0, 3]" "''23 23''" ?one ?e ?one 0 "Some ?e" erange for erange, THEN conjunct1]
  note third = leftover_tokens_are_unexpected
    [of ?one ?e 1 "[0]" "''23''" ?one ?e ?one 0 "Some ?e" erange for erange,
      THEN conjunct2, THEN conjunct2, THEN conjunct1]
  from first t n(1,2)
  have a: "Parse ?two [0, 3] ''23 23'' = Inr (Error INVALID_TOKEN ([0, 3] ! 1), Some ?e)"
    by blast
  from third p
  have b: "\<exists>expr. Some ?e = Some expr \<and> Term ?one 0 = Return expr (length ?one)"
    by blast
  from t n d p a b show ?thesis by blast
qed

section \<open>Invalid characters\<close>

text \<open>
  C6. For every input line, when scanning reaches a character that cannot start a token
  (it is no white space, no operator, no parenthesis and no digit: a letter, or a point
  that does not continue a literal), \<open>Scan\<close> returns \<open>INVALID_CHAR\<close> with the offset of that
  character and stops there: the tokens are those scanned before it. Stated for the loop at
  any position, for a line whose text before the character scans without error, and
  conversely for every error \<open>Scan\<close> returns. \<open>3a\<close> fails at offset 1 and \<open>.234\<close> at offset 0.
\<close>

theorem invalid_character_is_reported_where_it_stands:
  "(position < length source \<and> \<not> IsWhiteSpace (source ! position)
      \<and> \<not> starts_token (source ! position)
      \<longrightarrow> Scan_loop erange source position tokens token_positions
          = Inr (Error INVALID_CHAR position, tokens, token_positions @ [position]))
   \<and> (Scan erange pre = Inr (Error NO_ERROR 0, tokens, token_positions)
      \<and> \<not> IsWhiteSpace c \<and> \<not> starts_token c
      \<and> (c = CHR ''.'' \<longrightarrow> pre = [] \<or> (\<not> IsDigit (last pre) \<and> last pre \<noteq> CHR ''.''))
      \<longrightarrow> Scan erange (pre @ c # rest)
          = Inr (Error INVALID_CHAR (length pre), tokens, token_positions @ [length pre]))
   \<and> (Scan erange source = Inr (error, tokens', token_positions') \<and> is_error error
      \<longrightarrow> error_type error = INVALID_CHAR \<and> location error < length source
        \<and> \<not> IsWhiteSpace (source ! location error)
        \<and> \<not> starts_token (source ! location error))
   \<and> Scan erange ''3a'' = Inr (Error INVALID_CHAR 1, [Token_value (Finite 3)], [0, 1])
   \<and> Scan erange ''.234'' = Inr (Error INVALID_CHAR 0, [], [0])
   \<and> ProcessInput erange ''3a'' = Print_Error (Error INVALID_CHAR 1)
   \<and> ProcessInput erange ''.234'' = Print_Error (Error INVALID_CHAR 0)"
proof (intro conjI impI)
  assume "position < length source \<and> \<not> IsWhiteSpace (source ! position)
      \<and> \<not> starts_token (source ! position)"
  then show "Scan_loop erange source position tokens token_positions
      = Inr (Error INVALID_CHAR position, tokens, token_positions @ [position])"
    by (intro Scan_loop_invalid) simp_all
next
  assume "Scan erange pre = Inr (Error NO_ERROR 0, tokens, token_positions)
      \<and> \<not> IsWhiteSpace c \<and> \<not> starts_token c
      \<and> (c = CHR ''.'' \<longrightarrow> pre = [] \<or> (\<not> IsDigit (last pre) \<and> last pre \<noteq> CHR ''.''))"
  then show "Scan erange (pre @ c # rest)
      = Inr (Error INVALID_CHAR (length pre), tokens, token_positions @ [length pre])"
    by (intro Scan_invalid_after_prefix) simp_all
next
  assume a: "Scan erange source = Inr (error, tokens', token_positions') \<and> is_error error"
  then have "error_type error = INVALID_CHAR \<and> location error < length source
      \<and> \<not> IsWhiteSpace (source ! location error) \<and> \<not> starts_token (source ! location error)"
    by (intro Scan_error [of erange source error tokens' token_positions']) simp_all
  then show "error_type error = INVALID_CHAR" "location error < length source"
    "\<not> IsWhiteSpace (source ! location error)" "\<not> starts_token (source ! location error)"
    by simp_all
next
  show "Scan erange ''3a'' = Inr (Error INVALID_CHAR 1, [Token_value (Finite 3)], [0, 1])"
    by code_simp
next
  show "Scan erange ''.234'' = Inr (Error INVALID_CHAR 0, [], [0])"
    by code_simp
next
  show "ProcessInput erange ''3a'' = Print_Error (Error INVALID_CHAR 1)"
    by code_simp
next
  show "ProcessInput erange ''.234'' = Print_Error (Error INVALID_CHAR 0)"
    by code_simp
qed

theorem invalid_character_is_reported_where_it_stands_witness:
  "(1::nat) < length ''3a'' \<and> \<not> IsWhiteSpace (''3a'' ! 1) \<and> \<not> starts_token (''3a'' ! 1)
   \<and> Scan_loop underflow_unreported ''3a'' 1 [Token_value (Finite 3)] [0]
       = Inr (Error INVALID_CHAR 1, [Token_value (Finite 3)], [0, 1])
   \<and> Scan underflow_unreported ''3'' = Inr (Error NO_ERROR 0, [Token_value (Finite 3)], [0])
   \<and> \<not> IsWhiteSpace (CHR ''a'') \<and> \<not> starts_token (CHR ''a'') \<and> CHR ''a'' \<noteq> CHR ''.''
   \<and> Scan underflow_unreported (''3'' @ CHR ''a'' # ''+1'')
       = Inr (Error INVALID_CHAR (length ''3''), [Token_value (Finite 3)], [0] @ [length ''3''])
   \<and> Scan underflow_unreported ''3a+1'' = Inr (Error INVALID_CHAR 1, [Token_value (Finite 3)], [0, 1])
   \<and> is_error (Error INVALID_CHAR 1)
   \<and> error_type (Error INVALID_CHAR 1) = INVALID_CHAR
   \<and> location (Error INVALID_CHAR 1) < length ''3a+1''
   \<and> \<not> starts_token (''3a+1'' ! location (Error INVALID_CHAR 1))"
proof -
  let ?e = underflow_unreported
  have c: "(1::nat) < length ''3a''" "\<not> IsWhiteSpace (''3a'' ! 1)" "\<not> starts_token (''3a'' ! 1)"
    "\<not> IsWhiteSpace (CHR ''a'')" "\<not> starts_token (CHR ''a'')" "CHR ''a'' \<noteq> CHR ''.''"
    "is_error (Error INVALID_CHAR 1)"
    by (simp_all add: IsWhiteSpace_def starts_token_def IsDigit_def operator_token_def is_error_def)
  have s: "Scan ?e ''3'' = Inr (Error NO_ERROR 0, [Token_value (Finite 3)], [0])"
    by code_simp
  have s2: "Scan ?e ''3a+1'' = Inr (Error INVALID_CHAR 1, [Token_value (Finite 3)], [0, 1])"
    by code_simp
  note first = invalid_character_is_reported_where_it_stands
    [of 1 "''3a''" ?e "[Token_value (Finite 3)]" "[0]" "''3''" "CHR ''a''" "''+1''"
      "Error INVALID_CHAR 1" "[Token_value (Finite 3)]" "[0, 1]", THEN conjunct1]
  note second = invalid_character_is_reported_where_it_stands
    [of 1 "''3a''" ?e "[Token_value (Finite 3)]" "[0]" "''3''" "CHR ''a''" "''+1''"
      "Error INVALID_CHAR 1" "[Token_value (Finite 3)]" "[0, 1]", THEN conjunct2, THEN conjunct1]
  note third = invalid_character_is_reported_where_it_stands
    [of 1 "''3a+1''" ?e "[Token_value (Finite 3)]" "[0]" "''3''" "CHR ''a''" "''+1''"
      "Error INVALID_CHAR 1" "[Token_value (Finite 3)]" "[0, 1]",
      THEN conjunct2, THEN conjunct2, THEN conjunct1]
  from first c have a: "Scan_loop ?e ''3a'' 1 [Token_value (Finite 3)] [0]
       = Inr (Error INVALID_CHAR 1, [Token_value (Finite 3)], [0] @ [1])"
    by blast
  from second s c have b: "Scan ?e (''3'' @ CHR ''a'' # ''+1'')
       = Inr (Error INVALID_CHAR (length ''3''), [Token_value (Finite 3)], [0] @ [length ''3''])"
    by blast
  from third s2 c have d: "error_type (Error INVALID_CHAR 1) = INVALID_CHAR
      \<and> location (Error INVALID_CHAR 1) < length ''3a+1''
      \<and> \<not> IsWhiteSpace (''3a+1'' ! location (Error INVALID_CHAR 1))
      \<and> \<not> starts_token (''3a+1'' ! location (Error INVALID_CHAR 1))"
    by blast
  from a have a': "Scan_loop ?e ''3a'' 1 [Token_value (Finite 3)] [0]
       = Inr (Error INVALID_CHAR 1, [Token_value (Finite 3)], [0, 1])"
    by simp
  from c s s2 a' b d show ?thesis by blast
qed

section \<open>Literals\<close>

text \<open>
  C7. Scanning a literal is maximal munch over \<open>digit+ ('.' digit*)?\<close>: from a digit,
  \<open>GetLiteral\<close> consumes the longest text at that position that matches the pattern, which
  holds at most one point; it stops before a second point. So \<open>23.23.3\<close> gives the one
  literal \<open>23.23\<close> (the \<open>float\<close> nearest to it) and then \<open>INVALID_CHAR\<close> at the second point,
  offset 5.
\<close>

theorem literal_scanning_is_maximal_munch:
  "(position < length source \<and> IsDigit (source ! position)
      \<longrightarrow> (let q = literal_loop source position False;
               w = take (q - position) (drop position source)
           in position < q \<and> q \<le> length source \<and> matches_literal w
              \<and> length (filter (\<lambda>ch. ch = CHR ''.'') w) \<le> 1
              \<and> (\<forall>n. q - position < n \<and> n \<le> length source - position
                    \<longrightarrow> \<not> matches_literal (take n (drop position source)))
              \<and> \<not> IsDigit (source_at source q)
              \<and> (source_at source q = CHR ''.'' \<longrightarrow> CHR ''.'' \<in> set w)
              \<and> GetLiteral erange source position
                  = (case stof erange w of Inl ex \<Rightarrow> Inl ex | Inr v \<Rightarrow> Inr ((v, True), q))))
   \<and> literal_loop ''23.23.3'' 0 False = 5
   \<and> stof erange ''23.23'' = Inr (Finite (6089605 / 262144))
   \<and> \<bar>6089605 / 262144 - 2323 / 100 :: rat\<bar> \<le> 1 / 2 ^ 20
   \<and> Scan erange ''23.23.3''
       = Inr (Error INVALID_CHAR 5, [Token_value (Finite (6089605 / 262144))], [0, 5])"
proof (intro conjI impI)
  assume a: "position < length source \<and> IsDigit (source ! position)"
  then have "IsDigit (source_at source position)" by (simp add: source_at_nth)
  from GetLiteral_digit [OF this] literal_run [of position source] a
  show "let q = literal_loop source position False;
            w = take (q - position) (drop position source)
        in position < q \<and> q \<le> length source \<and> matches_literal w
           \<and> length (filter (\<lambda>ch. ch = CHR ''.'') w) \<le> 1
           \<and> (\<forall>n. q - position < n \<and> n \<le> length source - position
                 \<longrightarrow> \<not> matches_literal (take n (drop position source)))
           \<and> \<not> IsDigit (source_at source q)
           \<and> (source_at source q = CHR ''.'' \<longrightarrow> CHR ''.'' \<in> set w)
           \<and> GetLiteral erange source position
               = (case stof erange w of Inl ex \<Rightarrow> Inl ex | Inr v \<Rightarrow> Inr ((v, True), q))"
    unfolding Let_def by blast
next
  show "literal_loop ''23.23.3'' 0 False = 5"
    by code_simp
next
  show "stof erange ''23.23'' = Inr (Finite (6089605 / 262144))"
    by code_simp
next
  show "\<bar>6089605 / 262144 - 2323 / 100 :: rat\<bar> \<le> 1 / 2 ^ 20"
    by simp
next
  show "Scan erange ''23.23.3''
       = Inr (Error INVALID_CHAR 5, [Token_value (Finite (6089605 / 262144))], [0, 5])"
    by code_simp
qed

theorem literal_scanning_is_maximal_munch_witness:
  "(0::nat) < length ''23.23.3'' \<and> IsDigit (''23.23.3'' ! 0)
   \<and> literal_loop ''23.23.3'' 0 False = 5
   \<and> matches_literal ''23.23''
   \<and> length (filter (\<lambda>ch. ch = CHR ''.'') ''23.23'') \<le> 1
   \<and> \<not> matches_literal ''23.23.''
   \<and> \<not> matches_literal ''23.23.3''
   \<and> source_at ''23.23.3'' 5 = CHR ''.''
   \<and> CHR ''.'' \<in> set ''23.23''
   \<and> GetLiteral underflow_unreported ''23.23.3'' 0 = Inr ((Finite (6089605 / 262144), True), 5)"
proof -
  let ?s = "''23.23.3''"
  have h: "(0::nat) < length ?s" "IsDigit (?s ! 0)"
    by (simp_all add: IsDigit_def)
  have q: "literal_loop ?s 0 False = 5"
    by code_simp
  have st: "stof underflow_unreported ''23.23'' = Inr (Finite (6089605 / 262144))"
    by code_simp
  have c: "source_at ?s 5 = CHR ''.''"
    by (simp add: source_at_def)
  note first = literal_scanning_is_maximal_munch
    [of 0 ?s underflow_unreported, THEN conjunct1, unfolded Let_def q]
  from first h have a: "matches_literal (take (5 - 0) (drop 0 ?s))"
    and b: "length (filter (\<lambda>ch. ch = CHR ''.'') (take (5 - 0) (drop 0 ?s))) \<le> 1"
    and m: "\<forall>n. 5 - 0 < n \<and> n \<le> length ?s - 0 \<longrightarrow> \<not> matches_literal (take n (drop 0 ?s))"
    and d: "source_at ?s 5 = CHR ''.'' \<longrightarrow> CHR ''.'' \<in> set (take (5 - 0) (drop 0 ?s))"
    and g: "GetLiteral underflow_unreported ?s 0
        = (case stof underflow_unreported (take (5 - 0) (drop 0 ?s)) of
             Inl ex \<Rightarrow> Inl ex | Inr v \<Rightarrow> Inr ((v, True), 5))"
    by blast+
  have w: "take (5 - 0) (drop 0 ?s) = ''23.23''" by simp
  from m [rule_format, of 6] m [rule_format, of 7]
  have n: "\<not> matches_literal ''23.23.''" "\<not> matches_literal ''23.23.3''" by simp_all
  from g have g': "GetLiteral underflow_unreported ?s 0 = Inr ((Finite (6089605 / 262144), True), 5)"
    unfolding w st by simp
  from a b d c have "matches_literal ''23.23''"
    "length (filter (\<lambda>ch. ch = CHR ''.'') ''23.23'') \<le> 1" "CHR ''.'' \<in> set ''23.23''"
    unfolding w by blast+
  with h q n c g' show ?thesis by blast
qed

section \<open>Division by zero\<close>

text \<open>
  C8. The evaluator has no failure path and makes no test for zero: \<open>Evaluate\<close> is a total
  function to \<open>float\<close>, whatever parses is evaluated and printed, and a quotient whose
  divisor evaluates to zero is an infinity or a NaN; \<open>1 / 0\<close> is the positive infinity.
\<close>

theorem division_by_zero_is_not_an_error:
  "(is_zero (Evaluate rhs)
      \<longrightarrow> Evaluate (DivideExpression lhs rhs)
          = (if Evaluate lhs = NaN \<or> is_zero (Evaluate lhs) then NaN
             else signed_infinity (sign_bit (Evaluate lhs) \<noteq> sign_bit (Evaluate rhs)))
        \<and> (Evaluate (DivideExpression lhs rhs) = NaN
            \<or> is_infinite (Evaluate (DivideExpression lhs rhs))))
   \<and> (Scan erange input = Inr (Error NO_ERROR l, tokens, token_positions)
        \<and> Parse tokens token_positions input = Inr (Error NO_ERROR l', Some expr)
      \<longrightarrow> ProcessInput erange input = Print_Value (Evaluate expr))
   \<and> ProcessInput erange ''1 / 0'' = Print_Value PosInf
   \<and> ProcessInput erange ''0 / 0'' = Print_Value NaN
   \<and> ProcessInput erange ''(1 - 2) / 0'' = Print_Value NegInf"
proof (intro conjI impI)
  assume z: "is_zero (Evaluate rhs)"
  then show e: "Evaluate (DivideExpression lhs rhs)
      = (if Evaluate lhs = NaN \<or> is_zero (Evaluate lhs) then NaN
         else signed_infinity (sign_bit (Evaluate lhs) \<noteq> sign_bit (Evaluate rhs)))"
    by (simp add: float_div_zero)
  show "Evaluate (DivideExpression lhs rhs) = NaN
      \<or> is_infinite (Evaluate (DivideExpression lhs rhs))"
    unfolding e by (simp add: signed_infinity_def)
next
  assume "Scan erange input = Inr (Error NO_ERROR l, tokens, token_positions)
      \<and> Parse tokens token_positions input = Inr (Error NO_ERROR l', Some expr)"
  then show "ProcessInput erange input = Print_Value (Evaluate expr)"
    by (intro ProcessInput_value [of erange input l tokens token_positions l']) simp_all
next
  show "ProcessInput erange ''1 / 0'' = Print_Value PosInf"
    by code_simp
next
  show "ProcessInput erange ''0 / 0'' = Print_Value NaN"
    by code_simp
next
  show "ProcessInput erange ''(1 - 2) / 0'' = Print_Value NegInf"
    by code_simp
qed

theorem division_by_zero_is_not_an_error_witness:
  "is_zero (Evaluate (LiteralExpression (Finite 0)))
   \<and> Evaluate (DivideExpression (LiteralExpression (Finite 1)) (LiteralExpression (Finite 0))) = PosInf
   \<and> Scan underflow_unreported ''1 / 0''
       = Inr (Error NO_ERROR 0, [Token_value (Finite 1), Token_type DIV, Token_value (Finite 0)],
           [0, 2, 4])
   \<and> Parse [Token_value (Finite 1), Token_type DIV, Token_value (Finite 0)] [0, 2, 4] ''1 / 0''
       = Inr (Error NO_ERROR 0,
           Some (DivideExpression (LiteralExpression (Finite 1)) (LiteralExpression (Finite 0))))
   \<and> ProcessInput underflow_unreported ''1 / 0''
       = Print_Value
           (Evaluate (DivideExpression (LiteralExpression (Finite 1)) (LiteralExpression (Finite 0))))"
proof -
  let ?l = "LiteralExpression (Finite 1)" and ?r = "LiteralExpression (Finite 0)"
  let ?ts = "[Token_value (Finite 1), Token_type DIV, Token_value (Finite 0)]"
  have z: "is_zero (Evaluate ?r)" by simp
  have s: "Scan underflow_unreported ''1 / 0'' = Inr (Error NO_ERROR 0, ?ts, [0, 2, 4])"
    by code_simp
  have p: "Parse ?ts [0, 2, 4] ''1 / 0'' = Inr (Error NO_ERROR 0, Some (DivideExpression ?l ?r))"
    by code_simp
  note first = division_by_zero_is_not_an_error
    [of ?r ?l underflow_unreported "''1 / 0''" 0 ?ts "[0, 2, 4]" 0 "DivideExpression ?l ?r",
      THEN conjunct1]
  note second = division_by_zero_is_not_an_error
    [of ?r ?l underflow_unreported "''1 / 0''" 0 ?ts "[0, 2, 4]" 0 "DivideExpression ?l ?r",
      THEN conjunct2, THEN conjunct1]
  from first z have "Evaluate (DivideExpression ?l ?r)
      = (if Evaluate ?l = NaN \<or> is_zero (Evaluate ?l) then NaN
         else signed_infinity (sign_bit (Evaluate ?l) \<noteq> sign_bit (Evaluate ?r)))"
    by blast
  then have a: "Evaluate (DivideExpression ?l ?r) = PosInf"
    by (simp add: signed_infinity_def)
  from second s p have b: "ProcessInput underflow_unreported ''1 / 0''
      = Print_Value (Evaluate (DivideExpression ?l ?r))"
    by blast
  from z a s p b show ?thesis by blast
qed

section \<open>The width of the numbers\<close>

text \<open>
  C9. The claim: the values of literal tokens and the result of the evaluator are 64-bit
  floating-point numbers. The code declares them \<open>float\<close>, 32 bits. The literal \<open>16777217\<close>
  (2 to the 24th, plus one) is a number of the 64-bit format, yet its token holds 16777216;
  and \<open>16777216 + 1\<close> evaluates to 16777216, where 64-bit addition gives 16777217.
\<close>

theorem numbers_are_float64_counterexample:
  "Scan underflow_unreported ''16777217''
     = Inr (Error NO_ERROR 0, [Token_value (Finite 16777216)], [0])
   \<and> decimal_value ''16777217'' = 16777217
   \<and> round_double (decimal_value ''16777217'') = Finite 16777217
   \<and> Finite 16777216 \<noteq> round_double (decimal_value ''16777217'')
   \<and> ProcessInput underflow_unreported ''16777216 + 1'' = Print_Value (Finite 16777216)
   \<and> round_double (16777216 + 1) = Finite 16777217
   \<and> Finite 16777216 \<noteq> round_double (16777216 + 1)"
proof -
  have d: "decimal_value ''16777217'' = 16777217"
    by code_simp
  have "round_double (of_int 16777217) = Finite (of_int 16777217)"
    by (rule round_double_int) simp
  then have r: "round_double 16777217 = Finite 16777217" by simp
  have s: "Scan underflow_unreported ''16777217''
     = Inr (Error NO_ERROR 0, [Token_value (Finite 16777216)], [0])"
    by code_simp
  have p: "ProcessInput underflow_unreported ''16777216 + 1'' = Print_Value (Finite 16777216)"
    by code_simp
  from d r s p show ?thesis by simp
qed

text \<open>
  C9 as amended: the values of literal tokens and the result of the evaluator are 32-bit
  floating-point numbers (\<open>float\<close>, IEEE 754 binary32). Every literal token \<open>Scan\<close> leaves
  holds a binary32 number, \<open>Evaluate\<close> on binary32 leaves gives a binary32 number, and so
  is every value \<open>ProcessInput\<close> prints. Of the whole numbers around 2 to the 24th,
  16777216 and 16777218 are binary32 numbers and 16777217 is not.
\<close>

theorem numbers_are_binary32:
  "(Scan erange source = Inr (error, tokens, token_positions)
      \<longrightarrow> (\<forall>v. Token_value v \<in> set tokens \<longrightarrow> is_binary32 v))
   \<and> ((\<forall>v \<in> literals expr. is_binary32 v) \<longrightarrow> is_binary32 (Evaluate expr))
   \<and> (ProcessInput erange input = Print_Value result \<longrightarrow> is_binary32 result)
   \<and> is_binary32 (Finite 16777216) \<and> \<not> is_binary32 (Finite 16777217)
   \<and> is_binary32 (Finite 16777218)"
proof (intro conjI impI allI)
  fix v
  assume "Scan erange source = Inr (error, tokens, token_positions)" "Token_value v \<in> set tokens"
  with Scan_binary32 [of erange source error tokens token_positions]
  show "is_binary32 v" by (simp add: token_values_def)
next
  assume "\<forall>v \<in> literals expr. is_binary32 v"
  then show "is_binary32 (Evaluate expr)" by (rule is_binary32_Evaluate)
next
  assume "ProcessInput erange input = Print_Value result"
  then show "is_binary32 result" by (rule ProcessInput_binary32)
next
  show "is_binary32 (Finite 16777216)" by code_simp
next
  show "\<not> is_binary32 (Finite 16777217)" by code_simp
next
  show "is_binary32 (Finite 16777218)" by code_simp
qed

theorem numbers_are_binary32_witness:
  "Scan underflow_unreported ''16777217''
     = Inr (Error NO_ERROR 0, [Token_value (Finite 16777216)], [0])
   \<and> Token_value (Finite 16777216) \<in> set [Token_value (Finite 16777216)]
   \<and> is_binary32 (Finite 16777216)
   \<and> is_binary32 (Evaluate (AddExpression (LiteralExpression (Finite 16777216))
        (LiteralExpression (Finite 16777216))))
   \<and> ProcessInput underflow_unreported ''16777216 + 1'' = Print_Value (Finite 16777216)"
proof -
  let ?e = underflow_unreported
  let ?x = "Finite 16777216"
  let ?sum = "AddExpression (LiteralExpression ?x) (LiteralExpression ?x)"
  have s: "Scan ?e ''16777217'' = Inr (Error NO_ERROR 0, [Token_value ?x], [0])"
    by code_simp
  have p: "ProcessInput ?e ''16777216 + 1'' = Print_Value ?x"
    by code_simp
  have m: "Token_value ?x \<in> set [Token_value ?x]" by simp
  note t = numbers_are_binary32
    [of ?e "''16777217''" "Error NO_ERROR 0" "[Token_value ?x]" "[0]" ?sum
      "''16777216 + 1''" ?x]
  from t [THEN conjunct1] s m have a: "is_binary32 ?x" by blast
  from t [THEN conjunct2, THEN conjunct2, THEN conjunct1]
  have "ProcessInput ?e ''16777216 + 1'' = Print_Value ?x \<longrightarrow> is_binary32 ?x" .
  from this p have r: "is_binary32 ?x" by (rule mp)
  from a have "\<forall>v \<in> literals ?sum. is_binary32 v" by simp
  with t [THEN conjunct2, THEN conjunct1]
  have c: "is_binary32 (Evaluate ?sum)" by blast
  from s m r c p show ?thesis by blast
qed

section \<open>Sign of literals\<close>

text \<open>
  C10. Every literal token that \<open>Scan\<close> produces has a value that is not negative: it is a
  finite number greater than or equal to zero, whether \<open>Scan\<close> ends with an error or not.
\<close>

theorem literal_tokens_are_nonnegative:
  "(Scan erange source = Inr (error, tokens, token_positions)
      \<longrightarrow> (\<forall>t \<in> set tokens. token_type t = LITERAL
            \<longrightarrow> (\<exists>q. t = Token_value (Finite q) \<and> 0 \<le> q)))
   \<and> (stof erange w = Inr v \<longrightarrow> (\<exists>q. v = Finite q \<and> 0 \<le> q))"
proof (intro conjI impI ballI)
  fix t
  assume "Scan erange source = Inr (error, tokens, token_positions)" "t \<in> set tokens"
    "token_type t = LITERAL"
  with Scan_nonnegative [of erange source error tokens token_positions]
  have "nonnegative_literal t" "token_type t = LITERAL" by simp_all
  then show "\<exists>q. t = Token_value (Finite q) \<and> 0 \<le> q"
    by (rule nonnegative_literal_value)
next
  assume "stof erange w = Inr v"
  then show "\<exists>q. v = Finite q \<and> 0 \<le> q" by (rule stof_nonneg)
qed

theorem literal_tokens_are_nonnegative_witness:
  "Scan underflow_unreported ''0.5 - 3''
     = Inr (Error NO_ERROR 0, [Token_value (Finite (1 / 2)), Token_type SUB, Token_value (Finite 3)],
         [0, 4, 6])
   \<and> Token_value (Finite 3)
       \<in> set [Token_value (Finite (1 / 2)), Token_type SUB, Token_value (Finite 3)]
   \<and> token_type (Token_value (Finite 3)) = LITERAL
   \<and> (\<exists>q. Token_value (Finite 3) = Token_value (Finite q) \<and> 0 \<le> q)
   \<and> stof underflow_unreported ''0.5'' = Inr (Finite (1 / 2))
   \<and> (\<exists>q. Finite (1 / 2) = Finite q \<and> 0 \<le> q)"
proof -
  let ?ts = "[Token_value (Finite (1 / 2)), Token_type SUB, Token_value (Finite 3)]"
  have s: "Scan underflow_unreported ''0.5 - 3'' = Inr (Error NO_ERROR 0, ?ts, [0, 4, 6])"
    by code_simp
  have st: "stof underflow_unreported ''0.5'' = Inr (Finite (1 / 2))"
    by code_simp
  have m: "Token_value (Finite 3) \<in> set ?ts" "token_type (Token_value (Finite 3)) = LITERAL"
    by simp_all
  note first = literal_tokens_are_nonnegative
    [of underflow_unreported "''0.5 - 3''" "Error NO_ERROR 0" ?ts "[0, 4, 6]" "''0.5''"
      "Finite (1 / 2)", THEN conjunct1]
  note second = literal_tokens_are_nonnegative
    [of underflow_unreported "''0.5 - 3''" "Error NO_ERROR 0" ?ts "[0, 4, 6]" "''0.5''"
      "Finite (1 / 2)", THEN conjunct2]
  from first s m have a: "\<exists>q. Token_value (Finite 3) = Token_value (Finite q) \<and> 0 \<le> q"
    by blast
  from second st have b: "\<exists>q. Finite (1 / 2) = Finite q \<and> 0 \<le> q"
    by blast
  from s st m a b show ?thesis by blast
qed

end
